theory Spec2Isabelle
  imports Complex_Main "HOL-Library.Sublist" "HOL-Library.Code_Target_Nat"
begin

chapter \<open>The model\<close>

section \<open>Strings\<close>

text \<open>
  A JavaScript string is a sequence of code units. It is modelled as a HOL \<open>string\<close>,
  one \<open>char\<close> per code unit, so the strings of this development are the JavaScript
  strings whose code units lie below 256 (ASCII and Latin-1).
\<close>

text \<open>
  \<open>s.replace(/c/g, r)\<close> for a one-character pattern: every occurrence of the code unit
  \<open>c\<close> is replaced by the string \<open>r\<close>, from left to right; the replacement text is
  not scanned again.
\<close>

definition replace_all :: "char \<Rightarrow> string \<Rightarrow> string \<Rightarrow> string" where
  "replace_all c r s = concat (map (\<lambda>x. if x = c then r else [x]) s)"

text \<open>\<open>t.includes(k)\<close>: the string \<open>k\<close> occurs in \<open>t\<close> at some position.\<close>

fun str_includes :: "string \<Rightarrow> string \<Rightarrow> bool" where
  "str_includes [] k = (k = [])"
| "str_includes (c # t) k = (prefix k (c # t) \<or> str_includes t k)"

section \<open>Numbers as text\<close>

text \<open>
  Integers are unbounded (\<open>int\<close>, \<open>nat\<close>): the rounding of a JavaScript Number
  above \<open>2^53\<close> is not modelled.
\<close>

definition is_digit :: "char \<Rightarrow> bool" where
  "is_digit c = (48 \<le> (of_char c :: nat) \<and> (of_char c :: nat) \<le> 57)"

text \<open>
  The value of a code unit as a digit: \<open>0\<close> to \<open>9\<close>, then the letters of either
  case as 10 to 35; 36 for a code unit that is a digit in no radix.
\<close>

definition alnum_value :: "char \<Rightarrow> nat" where
  "alnum_value c =
     (let n = (of_char c :: nat) in
      if 48 \<le> n \<and> n \<le> 57 then n - 48
      else if 97 \<le> n \<and> n \<le> 122 then n - 87
      else if 65 \<le> n \<and> n \<le> 90 then n - 55
      else 36)"

definition radix_value :: "nat \<Rightarrow> string \<Rightarrow> nat" where
  "radix_value R Z = foldl (\<lambda>a c. R * a + alnum_value c) 0 Z"

definition digit_char :: "nat \<Rightarrow> char" where
  "digit_char d = char_of (48 + d)"

text \<open>The decimal digits of a natural number, as \<open>Number.prototype.toString\<close> writes an integer.\<close>

fun show_nat :: "nat \<Rightarrow> string" where
  "show_nat n = (if n < 10 then [digit_char n] else show_nat (n div 10) @ [digit_char (n mod 10)])"

declare show_nat.simps [simp del]

definition show_int :: "int \<Rightarrow> string" where
  "show_int i = (if i < 0 then CHR ''-'' # show_nat (nat (- i)) else show_nat (nat i))"

text \<open>
  The white space that \<open>parseInt\<close> and \<open>parseFloat\<close> skip, among the code units below
  256: TAB, LF, VT, FF, CR, SP and NBSP.
\<close>

definition is_space :: "char \<Rightarrow> bool" where
  "is_space c = ((of_char c :: nat) \<in> {9, 10, 11, 12, 13, 32, 160})"

text \<open>
  \<open>parseInt(string, radix)\<close> of ECMAScript, on a string argument; radix 0 stands for
  an absent radix. \<open>None\<close> is \<open>NaN\<close>. Leading white space is skipped, then a sign is
  read, then a \<open>0x\<close> prefix when the radix is absent or 16, then the longest run of
  digits of the radix; what follows the digits is ignored.
\<close>

definition parseInt :: "string \<Rightarrow> nat \<Rightarrow> int option" where
  "parseInt string radix =
     (let S = dropWhile is_space string;
          sign = (if S \<noteq> [] \<and> hd S = CHR ''-'' then - 1 else 1 :: int);
          S = (if S \<noteq> [] \<and> (hd S = CHR ''+'' \<or> hd S = CHR ''-'') then tl S else S)
      in if radix \<noteq> 0 \<and> (radix < 2 \<or> 36 < radix) then None
         else
           let stripPrefix = (radix = 0 \<or> radix = 16);
               R = (if radix = 0 then 10 else radix);
               hex = (stripPrefix \<and> (prefix ''0x'' S \<or> prefix ''0X'' S));
               S = (if hex then drop 2 S else S);
               R = (if hex then 16 else R);
               Z = takeWhile (\<lambda>c. alnum_value c < R) S
           in if Z = [] then None else Some (sign * int (radix_value R Z)))"

section \<open>Validation\<close>

definition isValidChannel :: "string \<Rightarrow> bool" where
  "isValidChannel ch =
     (let num = parseInt ch 10
      in case num of None \<Rightarrow> False | Some n \<Rightarrow> 1 \<le> n \<and> n \<le> 200)"

text \<open>
  What \<open>parseInt(v, 10)\<close> reads, stated without the parser: the text is some white
  space, an optional sign, a non-empty run of decimal digits that is not followed by
  another digit, and then anything; the integer is the signed value of the digits, and the
  text after the digits is ignored.
\<close>

definition reads_integer_prefix :: "string \<Rightarrow> int \<Rightarrow> bool" where
  "reads_integer_prefix v n =
     (\<exists>ws sgn ds rest.
        v = ws @ sgn @ ds @ rest \<and> list_all is_space ws
        \<and> (sgn = [] \<or> sgn = ''+'' \<or> sgn = ''-'')
        \<and> ds \<noteq> [] \<and> list_all is_digit ds
        \<and> (case rest of [] \<Rightarrow> True | c # _ \<Rightarrow> \<not> is_digit c)
        \<and> n = (if sgn = ''-'' then - int (radix_value 10 ds) else int (radix_value 10 ds)))"

text \<open>
  The channel check as the specification words it: the input is valid when the whole of
  it is a base-10 integer (an optional sign and a non-empty run of decimal digits) that
  lies between 1 and 200, and every other input, non-numeric or out of range, is not.
\<close>

definition isValidChannel_as_specified :: "string \<Rightarrow> bool" where
  "isValidChannel_as_specified v =
     (let neg = (v \<noteq> [] \<and> hd v = CHR ''-'');
          ds = (if v \<noteq> [] \<and> (hd v = CHR ''+'' \<or> hd v = CHR ''-'') then tl v else v);
          n = (if neg then - int (radix_value 10 ds) else int (radix_value 10 ds))
      in ds \<noteq> [] \<and> list_all is_digit ds \<and> 1 \<le> n \<and> n \<le> 200)"

section \<open>HTML escaping\<close>

text \<open>
  The argument of \<open>escapeAttr\<close>: \<open>null\<close>, \<open>undefined\<close>, or any other value, given
  by the string \<open>String(text)\<close> that the function works on.
\<close>

datatype text_arg = Null | Undefined | Text string

definition escapeAttr :: "text_arg \<Rightarrow> string" where
  "escapeAttr text =
     (case text of
        Null \<Rightarrow> []
      | Undefined \<Rightarrow> []
      | Text t \<Rightarrow>
          (let s = t;
               s = replace_all (CHR ''&'') ''&amp;'' s;
               s = replace_all (CHR 0x27) ''&#39;'' s;
               s = replace_all (CHR 0x22) ''&quot;'' s;
               s = replace_all (CHR ''<'') ''&lt;'' s;
               s = replace_all (CHR ''>'') ''&gt;'' s
           in s))"

text \<open>The five character references that \<open>escapeAttr\<close> writes.\<close>

definition references :: "string list" where
  "references = [''&amp;'', ''&#39;'', ''&quot;'', ''&lt;'', ''&gt;'']"

text \<open>
  A string has no unescaped occurrence of the five characters when it holds no
  \<open>'\<close>, \<open>"\<close>, \<open><\<close> or \<open>>\<close> at all, and every \<open>&\<close> in it starts one of the
  five character references.
\<close>

fun escaped :: "string \<Rightarrow> bool" where
  "escaped [] = True"
| "escaped (c # cs) =
     ((if c = CHR ''&'' then list_ex (\<lambda>r. prefix r (c # cs)) references
       else c \<noteq> CHR 0x27 \<and> c \<noteq> CHR 0x22 \<and> c \<noteq> CHR ''<'' \<and> c \<noteq> CHR ''>'')
      \<and> escaped cs)"

text \<open>What the five passes do to one code unit.\<close>

definition escape_char :: "char \<Rightarrow> string" where
  "escape_char c =
     (if c = CHR ''&'' then ''&amp;''
      else if c = CHR 0x27 then ''&#39;''
      else if c = CHR 0x22 then ''&quot;''
      else if c = CHR ''<'' then ''&lt;''
      else if c = CHR ''>'' then ''&gt;''
      else [c])"

section \<open>Icons\<close>

text \<open>
  \<open>String.prototype.toLowerCase\<close> on code units below 256: the letters \<open>A\<close> to
  \<open>Z\<close> and the Latin-1 capitals (192 to 222, but for the multiplication sign 215) move up
  by 32; every other code unit stays.
\<close>

definition to_lower_char :: "char \<Rightarrow> char" where
  "to_lower_char c =
     (let n = (of_char c :: nat) in
      if (65 \<le> n \<and> n \<le> 90) \<or> (192 \<le> n \<and> n \<le> 222 \<and> n \<noteq> 215) then char_of (n + 32) else c)"

definition toLowerCase :: "string \<Rightarrow> string" where
  "toLowerCase s = map to_lower_char s"

text \<open>
  The four signal icons of \<open>Icons\<close>. Each method of the source returns the markup of its
  template with the class name filled in; the model keeps which template was chosen and
  the class name handed to it.
\<close>

datatype icon = wifi | bluetooth | cellular | signalUnknown

text \<open>\<open>type || ''\<close>: \<open>null\<close>, \<open>undefined\<close> and the empty string give the empty string.\<close>

definition or_empty :: "text_arg \<Rightarrow> string" where
  "or_empty x = (case x of Null \<Rightarrow> [] | Undefined \<Rightarrow> [] | Text s \<Rightarrow> s)"

definition forSignalType :: "text_arg \<Rightarrow> 'c \<Rightarrow> icon \<times> 'c" where
  "forSignalType type className =
     (let t = toLowerCase (or_empty type) in
      if str_includes t ''wifi'' \<or> str_includes t ''802.11'' then (wifi, className)
      else if str_includes t ''bluetooth'' \<or> str_includes t ''bt'' \<or> str_includes t ''ble''
        then (bluetooth, className)
      else if str_includes t ''cellular'' \<or> str_includes t ''lte'' \<or> str_includes t ''gsm''
              \<or> str_includes t ''5g''
        then (cellular, className)
      else (signalUnknown, className))"

text \<open>
  The classification as the specification words it: an ordered table of categories with
  their keyword sets; the label is lowercased, and the first category of the table with a
  keyword contained in the label wins; with no such category the label is unknown.
\<close>

definition keyword_table :: "(icon \<times> string list) list" where
  "keyword_table =
     [(wifi, [''wifi'', ''802.11'']),
      (bluetooth, [''bluetooth'', ''bt'', ''ble'']),
      (cellular, [''cellular'', ''lte'', ''gsm'', ''5g''])]"

definition classifyProtocol :: "string \<Rightarrow> icon" where
  "classifyProtocol label =
     (case find (\<lambda>(category, keywords). list_ex (\<lambda>k. sublist k (toLowerCase label)) keywords)
             keyword_table of
        Some (category, keywords) \<Rightarrow> category
      | None \<Rightarrow> signalUnknown)"

section \<open>Frequency parsing\<close>

text \<open>
  The exponent part of a decimal literal, at the head of \<open>S\<close>: \<open>e\<close> or \<open>E\<close>, an
  optional sign and at least one digit. Without such a part the exponent is 0.
\<close>

definition exponent_part :: "string \<Rightarrow> int" where
  "exponent_part S =
     (if S \<noteq> [] \<and> (hd S = CHR ''e'' \<or> hd S = CHR ''E'') then
        (let T = tl S;
             neg = (T \<noteq> [] \<and> hd T = CHR ''-'');
             T = (if T \<noteq> [] \<and> (hd T = CHR ''+'' \<or> hd T = CHR ''-'') then tl T else T);
             ds = takeWhile is_digit T
         in if ds = [] then 0
            else if neg then - int (radix_value 10 ds) else int (radix_value 10 ds))
      else 0)"

definition scale10 :: "rat \<Rightarrow> int \<Rightarrow> rat" where
  "scale10 x e = (if 0 \<le> e then x * 10 ^ nat e else x / 10 ^ nat (- e))"

text \<open>
  \<open>parseFloat(string)\<close> of ECMAScript on a string argument: leading white space is
  skipped, and the longest prefix that is a decimal literal is read: an optional sign,
  digits with an optional point and fraction (or a point and a fraction), and an optional
  exponent part. \<open>None\<close> is \<open>NaN\<close>: no digit stands where the literal should start.
  The value is the exact decimal number (the host rounds it to the nearest Number). The
  literal \<open>Infinity\<close> is not modelled.
\<close>

definition parseFloat :: "string \<Rightarrow> rat option" where
  "parseFloat string =
     (let S = dropWhile is_space string;
          neg = (S \<noteq> [] \<and> hd S = CHR ''-'');
          S = (if S \<noteq> [] \<and> (hd S = CHR ''+'' \<or> hd S = CHR ''-'') then tl S else S);
          ip = takeWhile is_digit S;
          S = dropWhile is_digit S;
          point = (S \<noteq> [] \<and> hd S = CHR ''.'');
          fp = (if point then takeWhile is_digit (tl S) else []);
          S = (if point then dropWhile is_digit (tl S) else S);
          e = exponent_part S;
          x = scale10 (of_nat (radix_value 10 (ip @ fp))) (e - int (length fp))
      in if ip = [] \<and> fp = [] then None else Some (if neg then - x else x))"

text \<open>
  \<open>freqStr.replace(/[^\d.-]/g, '')\<close>: every code unit outside the class (a digit, a
  point or a minus sign) is replaced by nothing.
\<close>

definition strip_non_numeric :: "string \<Rightarrow> string" where
  "strip_non_numeric s = filter (\<lambda>c. is_digit c \<or> c = CHR ''.'' \<or> c = CHR ''-'') s"

definition parseFrequency :: "string \<Rightarrow> rat option" where
  "parseFrequency freqStr = parseFloat (strip_non_numeric freqStr)"

text \<open>
  The stripping as the specification words it: a digit and a decimal point are kept, and a
  minus sign is kept only where it leads the text.
\<close>

definition strip_as_specified :: "string \<Rightarrow> string" where
  "strip_as_specified s =
     (case s of
        [] \<Rightarrow> []
      | c # cs \<Rightarrow>
          (if is_digit c \<or> c = CHR ''.'' \<or> c = CHR ''-'' then [c] else [])
          @ filter (\<lambda>c. is_digit c \<or> c = CHR ''.'') cs)"

definition parseFrequency_as_specified :: "string \<Rightarrow> rat option" where
  "parseFrequency_as_specified text = parseFloat (strip_as_specified text)"

section \<open>Numbers\<close>

text \<open>
  A JavaScript Number is \<open>NaN\<close>, an infinity (\<open>Infinity True\<close> is the negative one) or a
  finite number, given by its real value. The two zeros are one value here: \<open>==\<close> does
  not tell them apart, and neither does any operation that the distance functions apply
  (they divide by 180 and by 2 only, and the arguments that they give to \<open>Math.atan2\<close>
  are square roots of a sum and of a difference, which are never the negative zero).

  A finite Number is a double. \<open>rnd x\<close> is the Number that the real number \<open>x\<close>
  rounds to, as IEEE 754 has it for binary64 with rounding to nearest, ties to even: the
  spacing of the doubles around \<open>x\<close> is \<open>2\<close> to the power of the binade of \<open>x\<close> less 52,
  the binades below \<open>-1022\<close> share the spacing of that one, and a result that reaches
  \<open>2^1024\<close> is an infinity.
\<close>

datatype number = NaN | Infinity bool | Fin real

definition round_even :: "real \<Rightarrow> int" where
  "round_even q =
     (let f = \<lfloor>q\<rfloor>; d = q - of_int f
      in if d < 1 / 2 then f
         else if 1 / 2 < d then f + 1
         else if even f then f else f + 1)"

definition binade :: "real \<Rightarrow> int" where
  "binade x = max (- 1022) \<lfloor>log 2 \<bar>x\<bar>\<rfloor>"

text \<open>The double nearest to \<open>x\<close>, were the exponents of the doubles unbounded above.\<close>

definition nearest :: "real \<Rightarrow> real" where
  "nearest x = of_int (round_even (x / 2 powi (binade x - 52))) * 2 powi (binade x - 52)"

definition rnd :: "real \<Rightarrow> number" where
  "rnd x = (if 2 ^ 1024 \<le> \<bar>nearest x\<bar> then Infinity (x < 0) else Fin (nearest x))"

text \<open>
  The operators \<open>-x\<close>, \<open>x + y\<close>, \<open>x - y\<close>, \<open>x * y\<close> and \<open>x / y\<close> on Numbers.
  A zero divisor counts as the positive zero.
\<close>

definition num_neg :: "number \<Rightarrow> number" where
  "num_neg x = (case x of NaN \<Rightarrow> NaN | Infinity s \<Rightarrow> Infinity (\<not> s) | Fin a \<Rightarrow> Fin (- a))"

definition num_add :: "number \<Rightarrow> number \<Rightarrow> number" where
  "num_add x y =
     (case (x, y) of
        (Fin a, Fin b) \<Rightarrow> rnd (a + b)
      | (Fin a, Infinity t) \<Rightarrow> Infinity t
      | (Infinity s, Fin b) \<Rightarrow> Infinity s
      | (Infinity s, Infinity t) \<Rightarrow> if s = t then Infinity s else NaN
      | _ \<Rightarrow> NaN)"

definition num_sub :: "number \<Rightarrow> number \<Rightarrow> number" where
  "num_sub x y = num_add x (num_neg y)"

definition num_mul :: "number \<Rightarrow> number \<Rightarrow> number" where
  "num_mul x y =
     (case (x, y) of
        (Fin a, Fin b) \<Rightarrow> rnd (a * b)
      | (Fin a, Infinity t) \<Rightarrow> if a = 0 then NaN else Infinity (t \<noteq> (a < 0))
      | (Infinity s, Fin b) \<Rightarrow> if b = 0 then NaN else Infinity (s \<noteq> (b < 0))
      | (Infinity s, Infinity t) \<Rightarrow> Infinity (s \<noteq> t)
      | _ \<Rightarrow> NaN)"

definition num_div :: "number \<Rightarrow> number \<Rightarrow> number" where
  "num_div x y =
     (case (x, y) of
        (Fin a, Fin b) \<Rightarrow>
          if b = 0 then (if a = 0 then NaN else Infinity (a < 0)) else rnd (a / b)
      | (Fin a, Infinity t) \<Rightarrow> Fin 0
      | (Infinity s, Fin b) \<Rightarrow> Infinity (s \<noteq> (b < 0))
      | _ \<Rightarrow> NaN)"

text \<open>\<open>x == y\<close> on Numbers: \<open>NaN\<close> equals nothing, itself included.\<close>

definition equals :: "number \<Rightarrow> number \<Rightarrow> bool" where
  "equals x y = (x \<noteq> NaN \<and> y \<noteq> NaN \<and> x = y)"

text \<open>
  \<open>Math.sqrt\<close>, taken to round correctly as the hardware does, and \<open>Math.PI\<close>, the
  double nearest to \<open>\<pi>\<close>.
\<close>

definition Math_sqrt :: "number \<Rightarrow> number" where
  "Math_sqrt x =
     (case x of
        NaN \<Rightarrow> NaN
      | Infinity s \<Rightarrow> if s then NaN else Infinity False
      | Fin a \<Rightarrow> if a < 0 then NaN else rnd (sqrt a))"

definition Math_PI :: number where
  "Math_PI = Fin (884279719003555 / 281474976710656)"

text \<open>
  \<open>Math.sin\<close>, \<open>Math.cos\<close> and \<open>Math.atan2\<close> are approximations that ECMAScript
  leaves to the host, but for the arguments at which it fixes the result. A host is given
  by the real numbers that its results round: \<open>lib_sin h x\<close> for \<open>Math.sin\<close> at a
  finite \<open>x\<close> other than zero, and so on. Every host is of this kind, since a double
  rounds to itself.
\<close>

record math =
  lib_sin :: "real \<Rightarrow> real"
  lib_cos :: "real \<Rightarrow> real"
  lib_atan2 :: "number \<Rightarrow> number \<Rightarrow> real"

definition Math_sin :: "'h math_scheme \<Rightarrow> number \<Rightarrow> number" where
  "Math_sin h x =
     (case x of
        NaN \<Rightarrow> NaN
      | Infinity s \<Rightarrow> NaN
      | Fin a \<Rightarrow> if a = 0 then Fin 0 else rnd (lib_sin h a))"

definition Math_cos :: "'h math_scheme \<Rightarrow> number \<Rightarrow> number" where
  "Math_cos h x =
     (case x of
        NaN \<Rightarrow> NaN
      | Infinity s \<Rightarrow> NaN
      | Fin a \<Rightarrow> if a = 0 then Fin 1 else rnd (lib_cos h a))"

text \<open>
  \<open>Math.atan2(y, x)\<close> is \<open>NaN\<close> when an argument is, and zero for a zero \<open>y\<close> and an
  \<open>x\<close> that is not negative (a zero \<open>x\<close> counts as the positive zero), and for a
  finite \<open>y\<close> and the positive infinity.
\<close>

definition Math_atan2 :: "'h math_scheme \<Rightarrow> number \<Rightarrow> number \<Rightarrow> number" where
  "Math_atan2 h y x =
     (case (y, x) of
        (NaN, _) \<Rightarrow> NaN
      | (_, NaN) \<Rightarrow> NaN
      | (Fin a, Fin b) \<Rightarrow> if a = 0 \<and> 0 \<le> b then Fin 0 else rnd (lib_atan2 h y x)
      | (Fin a, Infinity t) \<Rightarrow> if \<not> t then Fin 0 else rnd (lib_atan2 h y x)
      | _ \<Rightarrow> rnd (lib_atan2 h y x))"

section \<open>Distances\<close>

text \<open>The quantity \<open>a\<close> of the haversine formula, as both distance functions compute it.\<close>

definition haversine ::
  "'h math_scheme \<Rightarrow> number \<Rightarrow> number \<Rightarrow> number \<Rightarrow> number \<Rightarrow> number" where
  "haversine h lat1 lon1 lat2 lon2 =
     (let dLat = num_div (num_mul (num_sub lat2 lat1) Math_PI) (Fin 180);
          dLon = num_div (num_mul (num_sub lon2 lon1) Math_PI) (Fin 180)
      in num_add
           (num_mul (Math_sin h (num_div dLat (Fin 2))) (Math_sin h (num_div dLat (Fin 2))))
           (num_mul
              (num_mul
                 (num_mul (Math_cos h (num_div (num_mul lat1 Math_PI) (Fin 180)))
                          (Math_cos h (num_div (num_mul lat2 Math_PI) (Fin 180))))
                 (Math_sin h (num_div dLon (Fin 2))))
              (Math_sin h (num_div dLon (Fin 2)))))"

text \<open>The distance that both functions make of \<open>a\<close> and of their radius \<open>R\<close>.\<close>

definition arc :: "'h math_scheme \<Rightarrow> number \<Rightarrow> number \<Rightarrow> number" where
  "arc h R a = num_mul R (num_mul (Fin 2) (Math_atan2 h (Math_sqrt a) (Math_sqrt (num_sub (Fin 1) a))))"

definition calculateDistanceNm ::
  "'h math_scheme \<Rightarrow> number \<Rightarrow> number \<Rightarrow> number \<Rightarrow> number \<Rightarrow> number" where
  "calculateDistanceNm h lat1 lon1 lat2 lon2 =
     (let R = rnd 3440.065;
          dLat = num_div (num_mul (num_sub lat2 lat1) Math_PI) (Fin 180);
          dLon = num_div (num_mul (num_sub lon2 lon1) Math_PI) (Fin 180);
          a = num_add
                (num_mul (Math_sin h (num_div dLat (Fin 2))) (Math_sin h (num_div dLat (Fin 2))))
                (num_mul
                   (num_mul
                      (num_mul (Math_cos h (num_div (num_mul lat1 Math_PI) (Fin 180)))
                               (Math_cos h (num_div (num_mul lat2 Math_PI) (Fin 180))))
                      (Math_sin h (num_div dLon (Fin 2))))
                   (Math_sin h (num_div dLon (Fin 2))));
          c = num_mul (Fin 2) (Math_atan2 h (Math_sqrt a) (Math_sqrt (num_sub (Fin 1) a)))
      in num_mul R c)"

definition calculateDistanceKm ::
  "'h math_scheme \<Rightarrow> number \<Rightarrow> number \<Rightarrow> number \<Rightarrow> number \<Rightarrow> number" where
  "calculateDistanceKm h lat1 lon1 lat2 lon2 =
     (let R = Fin 6371;
          dLat = num_div (num_mul (num_sub lat2 lat1) Math_PI) (Fin 180);
          dLon = num_div (num_mul (num_sub lon2 lon1) Math_PI) (Fin 180);
          a = num_add
                (num_mul (Math_sin h (num_div dLat (Fin 2))) (Math_sin h (num_div dLat (Fin 2))))
                (num_mul
                   (num_mul
                      (num_mul (Math_cos h (num_div (num_mul lat1 Math_PI) (Fin 180)))
                               (Math_cos h (num_div (num_mul lat2 Math_PI) (Fin 180))))
                      (Math_sin h (num_div dLon (Fin 2))))
                   (Math_sin h (num_div dLon (Fin 2))));
          c = num_mul (Fin 2) (Math_atan2 h (Math_sqrt a) (Math_sqrt (num_sub (Fin 1) a)))
      in num_mul R c)"

text \<open>
  A host whose \<open>Math.sin\<close>, \<open>Math.cos\<close> and \<open>Math.atan2\<close> round correctly.
\<close>

definition exact_math :: math where
  "exact_math =
     \<lparr>lib_sin = sin, lib_cos = cos,
      lib_atan2 = (\<lambda>y x. case (y, x) of
                     (Fin a, Fin b) \<Rightarrow>
                       if 0 < b then arctan (a / b)
                       else if b < 0 then (if 0 \<le> a then arctan (a / b) + pi else arctan (a / b) - pi)
                       else if 0 < a then pi / 2 else if a < 0 then - pi / 2 else 0
                   | (Fin a, Infinity t) \<Rightarrow> if \<not> t then 0 else if 0 \<le> a then pi else - pi
                   | (Infinity s, Fin b) \<Rightarrow> if s then - pi / 2 else pi / 2
                   | (Infinity s, Infinity t) \<Rightarrow>
                       (if s then - 1 else 1) * (if t then 3 * pi / 4 else pi / 4)
                   | _ \<Rightarrow> 0)\<rparr>"

section \<open>Time formatting\<close>



text \<open>
  The clock of the host, as \<open>getRelativeTime\<close> reads it. \<open>now\<close> and \<open>msgTime\<close>
  are the time values, in milliseconds of UTC, of its first and of its second
  \<open>new Date()\<close>, the second one before \<open>setHours\<close>. \<open>LocalTZA t isUTC\<close> is the
  offset of the local time zone that ECMAScript asks of the host: for a time value of UTC
  when \<open>isUTC\<close> holds, for a local time value otherwise. It changes with \<open>t\<close> where
  the local clock is set forward or back.
\<close>

record clock =
  now :: int
  msgTime :: int
  LocalTZA :: "int \<Rightarrow> bool \<Rightarrow> int"









text \<open>
  A steady clock: the two \<open>new Date()\<close> of \<open>getRelativeTime\<close> fall in the same
  millisecond, the offset of the local time zone is the same at all times (the local
  clock is not set forward or back) and at most a day, and the current instant lies in
  the range of the dates, some days away from its ends. All the time values that
  \<open>getRelativeTime\<close> then meets lie below \<open>2^53\<close>, where the arithmetic of the host
  is exact.
\<close>

definition steady :: "clock \<Rightarrow> bool" where
  "steady clk =
     (msgTime clk = now clk
      \<and> (\<forall>t u. LocalTZA clk t u = LocalTZA clk 0 True)
      \<and> \<bar>LocalTZA clk 0 True\<bar> \<le> 86400000
      \<and> \<bar>now clk\<bar> \<le> 8639999000000000)"

text \<open>
  A steady clock that reads the time value \<open>t\<close>, in a time zone \<open>z\<close> milliseconds
  ahead of UTC.
\<close>

definition clock_at :: "int \<Rightarrow> int \<Rightarrow> clock" where
  "clock_at t z = \<lparr>now = t, msgTime = t, LocalTZA = (\<lambda>t u. z)\<rparr>"

section \<open>Timers of the host\<close>

text \<open>
  \<open>setTimeout\<close> and \<open>clearTimeout\<close> belong to the host. The host keeps the pending
  timers: each has the handle that \<open>setTimeout\<close> returned, the time at which it is due
  and its callback. Time is in milliseconds. A callback is kept as the data that its
  closure captured. Handles are never reused. A timer fires when it is due and never
  inside a task; among timers due together the one set first fires first. Where a task
  comes at the very moment at which a timer is due, the timer is taken to fire first; the
  host is free to decide otherwise, and the properties of the runs are stated for runs in
  which this does not happen. A delay is kept as it is given; the hosts keep delays below
  \<open>2^31\<close> milliseconds only, and the properties are stated for such delays.
\<close>

record 'p timer =
  handle :: nat
  due :: nat
  callback :: 'p

record 'p timers =
  pending :: "'p timer list"
  next_handle :: nat

definition setTimeout :: "'p \<Rightarrow> nat \<Rightarrow> nat \<Rightarrow> 'p timers \<Rightarrow> nat \<times> 'p timers" where
  "setTimeout f delay tm h =
     (next_handle h,
      h\<lparr>pending := pending h @ [\<lparr>handle = next_handle h, due = tm + delay, callback = f\<rparr>],
        next_handle := Suc (next_handle h)\<rparr>)"

text \<open>\<open>clearTimeout(id)\<close>; \<open>None\<close> is \<open>undefined\<close>, which clears nothing.\<close>

definition clearTimeout :: "nat option \<Rightarrow> 'p timers \<Rightarrow> 'p timers" where
  "clearTimeout i h =
     (case i of
        None \<Rightarrow> h
      | Some n \<Rightarrow> h\<lparr>pending := filter (\<lambda>t. handle t \<noteq> n) (pending h)\<rparr>)"

text \<open>The timer that fires next, among those due at time \<open>tm\<close> or before.\<close>

definition next_due :: "nat \<Rightarrow> 'p timer list \<Rightarrow> 'p timer option" where
  "next_due tm ts =
     (case filter (\<lambda>t. due t \<le> tm) ts of
        [] \<Rightarrow> None
      | d # ds \<Rightarrow> Some (foldl (\<lambda>b t. if due t < due b then t else b) d ds))"

lemma next_due_member:
  assumes "next_due tm ts = Some t"
  shows "t \<in> set ts"
proof -
  have pick: "foldl (\<lambda>b t. if due t < due b then t else b) d ds \<in> set (d # ds)"
    for d :: "'p timer" and ds
    by (induction ds arbitrary: d) (auto split: if_splits)
  from assms obtain d ds where f: "filter (\<lambda>t. due t \<le> tm) ts = d # ds"
    and t: "t = foldl (\<lambda>b t. if due t < due b then t else b) d ds"
    by (auto simp: next_due_def split: list.splits)
  from pick [of d ds] t have "t \<in> set (filter (\<lambda>t. due t \<le> tm) ts)"
    by (simp only: f)
  then show ?thesis
    by simp
qed

section \<open>Debounce\<close>

text \<open>
  One debounced function \<open>debounce(func, wait)\<close>: the closure variable \<open>timeout\<close>
  (\<open>None\<close> is \<open>undefined\<close>), the timers of the host, whose callbacks \<open>later\<close> are
  kept as the arguments they captured, and the calls of \<open>func\<close> made so far, each with
  its time and its arguments.
\<close>

record 'a debounced =
  timeout :: "nat option"
  d_timers :: "'a timers"
  d_calls :: "(nat \<times> 'a) list"

definition debounce :: "'a debounced" where
  "debounce = \<lparr>timeout = None, d_timers = \<lparr>pending = [], next_handle = 1\<rparr>, d_calls = []\<rparr>"

text \<open>The callback \<open>later\<close> of a call with arguments \<open>args\<close>, run at time \<open>tm\<close>.\<close>

definition later :: "nat \<Rightarrow> 'a \<Rightarrow> 'a debounced \<Rightarrow> 'a debounced" where
  "later tm args st =
     (let st = st\<lparr>d_timers := clearTimeout (timeout st) (d_timers st)\<rparr>
      in st\<lparr>d_calls := d_calls st @ [(tm, args)]\<rparr>)"

text \<open>A call of the debounced function at time \<open>tm\<close>.\<close>

definition debounce_executedFunction :: "nat \<Rightarrow> nat \<Rightarrow> 'a \<Rightarrow> 'a debounced \<Rightarrow> 'a debounced" where
  "debounce_executedFunction wait tm args st =
     (let st = st\<lparr>d_timers := clearTimeout (timeout st) (d_timers st)\<rparr>;
          (i, h) = setTimeout args wait tm (d_timers st)
      in st\<lparr>timeout := Some i, d_timers := h\<rparr>)"

text \<open>The event loop up to time \<open>tm\<close>: the timers due by then fire, one after the other.\<close>

function debounce_run_timers :: "nat \<Rightarrow> 'a debounced \<Rightarrow> 'a debounced" where
  "debounce_run_timers tm st =
     (case next_due tm (pending (d_timers st)) of
        None \<Rightarrow> st
      | Some t \<Rightarrow>
          debounce_run_timers tm
            (later (due t) (callback t)
               (st\<lparr>d_timers := (d_timers st)\<lparr>pending := remove1 t (pending (d_timers st))\<rparr>\<rparr>)))"
  by pat_completeness auto
termination
proof (relation "measure (\<lambda>(tm, st). length (pending (d_timers st)))", goal_cases)
  case 1
  show ?case by simp
next
  case (2 tm st t)
  then have "t \<in> set (pending (d_timers st))"
    by (rule next_due_member)
  then have "length (remove1 t (pending (d_timers st))) < length (pending (d_timers st))"
    by (simp add: length_remove1) (cases "pending (d_timers st)", auto)
  moreover have "length (pending (d_timers (later (due t) (callback t)
        (st\<lparr>d_timers := (d_timers st)\<lparr>pending := remove1 t (pending (d_timers st))\<rparr>\<rparr>))))
      \<le> length (remove1 t (pending (d_timers st)))"
    by (simp add: later_def clearTimeout_def Let_def split: option.splits)
  ultimately show ?case
    by simp
qed

declare debounce_run_timers.simps [simp del]

text \<open>
  The host runs one task at a time, and a task runs to its end before the host does
  anything else: no timer fires between the calls that one task makes. A task is given by
  its time and by the arguments of the calls of the debounced function that it makes, in
  order. Before a task the timers due by its time fire.
\<close>

definition debounce_task :: "nat \<Rightarrow> nat \<Rightarrow> 'a list \<Rightarrow> 'a debounced \<Rightarrow> 'a debounced" where
  "debounce_task wait tm argss st =
     foldl (\<lambda>st args. debounce_executedFunction wait tm args st) (debounce_run_timers tm st) argss"

text \<open>A run: the tasks that call the debounced function, in the order of time.\<close>

fun debounce_tasks :: "nat \<Rightarrow> (nat \<times> 'a list) list \<Rightarrow> 'a debounced \<Rightarrow> 'a debounced" where
  "debounce_tasks wait [] st = st"
| "debounce_tasks wait ((tm, argss) # ts) st =
     debounce_tasks wait ts (debounce_task wait tm argss st)"

text \<open>
  The tasks of a run come at times that grow, and none comes at the very moment when the
  timer set by the task before it is due: at such a moment the host alone decides whether
  the timer or the task runs first.
\<close>

definition apart :: "nat \<Rightarrow> (nat \<times> 'a list) list \<Rightarrow> bool" where
  "apart wait ts = successively (\<lambda>a b. a < b \<and> b \<noteq> a + wait) (map fst ts)"

text \<open>Every task of the run makes a call.\<close>

definition calling :: "(nat \<times> 'a list) list \<Rightarrow> bool" where
  "calling ts = list_all (\<lambda>task. snd task \<noteq> []) ts"

text \<open>The calls of a run, each with its time and its arguments.\<close>

definition calls_of :: "(nat \<times> 'a list) list \<Rightarrow> (nat \<times> 'a) list" where
  "calls_of ts = concat (map (\<lambda>task. map (Pair (fst task)) (snd task)) ts)"

text \<open>
  The firings that the specification promises, up to time \<open>T\<close>: a call fires, \<open>wait\<close>
  after it was made and with its own arguments, when the next call comes later than that
  moment, or when no call follows and that moment has come.
\<close>

fun quiet_firings :: "nat \<Rightarrow> (nat \<times> 'a) list \<Rightarrow> nat \<Rightarrow> (nat \<times> 'a) list" where
  "quiet_firings wait [] T = []"
| "quiet_firings wait [(tm, args)] T = (if tm + wait \<le> T then [(tm + wait, args)] else [])"
| "quiet_firings wait ((tm, args) # (tm', args') # cs) T =
     (if tm + wait < tm' then [(tm + wait, args)] else [])
     @ quiet_firings wait ((tm', args') # cs) T"

section \<open>Throttle\<close>

text \<open>
  One throttled function \<open>throttle(func, limit)\<close>: the closure variable \<open>inThrottle\<close>
  (\<open>undefined\<close> at first, which counts as false), the timers of the host, whose callbacks
  all reset \<open>inThrottle\<close>, and the calls of \<open>func\<close> made so far.
\<close>

record 'a throttled =
  inThrottle :: bool
  t_timers :: "unit timers"
  t_calls :: "(nat \<times> 'a) list"

definition throttle :: "'a throttled" where
  "throttle = \<lparr>inThrottle = False, t_timers = \<lparr>pending = [], next_handle = 1\<rparr>, t_calls = []\<rparr>"

definition throttle_executedFunction :: "nat \<Rightarrow> nat \<Rightarrow> 'a \<Rightarrow> 'a throttled \<Rightarrow> 'a throttled" where
  "throttle_executedFunction limit tm args st =
     (if \<not> inThrottle st then
        (let st = st\<lparr>t_calls := t_calls st @ [(tm, args)]\<rparr>;
             st = st\<lparr>inThrottle := True\<rparr>;
             (i, h) = setTimeout () limit tm (t_timers st)
         in st\<lparr>t_timers := h\<rparr>)
      else st)"

function throttle_run_timers :: "nat \<Rightarrow> 'a throttled \<Rightarrow> 'a throttled" where
  "throttle_run_timers tm st =
     (case next_due tm (pending (t_timers st)) of
        None \<Rightarrow> st
      | Some t \<Rightarrow>
          throttle_run_timers tm
            (st\<lparr>t_timers := (t_timers st)\<lparr>pending := remove1 t (pending (t_timers st))\<rparr>,
                inThrottle := False\<rparr>))"
  by pat_completeness auto
termination
proof (relation "measure (\<lambda>(tm, st). length (pending (t_timers st)))", goal_cases)
  case 1
  show ?case by simp
next
  case (2 tm st t)
  then have "t \<in> set (pending (t_timers st))"
    by (rule next_due_member)
  then show ?case
    by (simp add: length_remove1) (cases "pending (t_timers st)", auto)
qed

declare throttle_run_timers.simps [simp del]

text \<open>A task that calls the throttled function, and a run of such tasks.\<close>

definition throttle_task :: "nat \<Rightarrow> nat \<Rightarrow> 'a list \<Rightarrow> 'a throttled \<Rightarrow> 'a throttled" where
  "throttle_task limit tm argss st =
     foldl (\<lambda>st args. throttle_executedFunction limit tm args st) (throttle_run_timers tm st) argss"

fun throttle_tasks :: "nat \<Rightarrow> (nat \<times> 'a list) list \<Rightarrow> 'a throttled \<Rightarrow> 'a throttled" where
  "throttle_tasks limit [] st = st"
| "throttle_tasks limit ((tm, argss) # ts) st =
     throttle_tasks limit ts (throttle_task limit tm argss st)"

text \<open>
  The firings that the specification promises: a call fires at once unless a lock is on;
  a call that fires puts the lock on for \<open>limit\<close>; a call under the lock is dropped.
  \<open>lock\<close> is the time at which the lock ends, when one is on; a call finds the lock off
  when it comes later than that.
\<close>

fun leading_firings :: "nat \<Rightarrow> nat option \<Rightarrow> (nat \<times> 'a) list \<Rightarrow> (nat \<times> 'a) list" where
  "leading_firings limit lock [] = []"
| "leading_firings limit lock ((tm, args) # cs) =
     (if (case lock of None \<Rightarrow> True | Some e \<Rightarrow> e < tm)
      then (tm, args) # leading_firings limit (Some (tm + limit)) cs
      else leading_firings limit lock cs)"

text \<open>
  The tasks of a run come at times that grow, and no later task comes at the very moment
  when a lock ends, \<open>limit\<close> after an invocation: at such a moment the host alone
  decides whether the timer or the task runs first.
\<close>

definition clear_of_locks :: "nat \<Rightarrow> (nat \<times> 'a list) list \<Rightarrow> bool" where
  "clear_of_locks limit ts =
     (sorted_wrt (<) (map fst ts)
      \<and> (\<forall>c \<in> set (leading_firings limit None (calls_of ts)).
            \<forall>task \<in> set ts. fst c < fst task \<longrightarrow> fst task \<noteq> fst c + limit))"

section \<open>Invariants of the rate limiters\<close>

text \<open>
  A debounced function has at most one pending timer, and \<open>timeout\<close> holds its handle.
\<close>

definition debounce_inv :: "'a debounced \<Rightarrow> bool" where
  "debounce_inv st =
     (case pending (d_timers st) of
        [] \<Rightarrow> True
      | [t] \<Rightarrow> timeout st = Some (handle t)
      | _ \<Rightarrow> False)"

text \<open>The scheduled invocation of a debounced function: when it is due, and its arguments.\<close>

definition scheduled :: "'a debounced \<Rightarrow> (nat \<times> 'a) option" where
  "scheduled st = (case pending (d_timers st) of [t] \<Rightarrow> Some (due t, callback t) | _ \<Rightarrow> None)"

text \<open>What is scheduled after a task at time \<open>tm\<close>, when \<open>p\<close> was scheduled before it.\<close>

definition scheduled_after :: "nat \<Rightarrow> (nat \<times> 'a) option \<Rightarrow> nat \<Rightarrow> 'a list \<Rightarrow> (nat \<times> 'a) option" where
  "scheduled_after wait p tm argss =
     (if argss \<noteq> [] then Some (tm + wait, last argss)
      else case p of Some (d, a) \<Rightarrow> if d \<le> tm then None else Some (d, a) | None \<Rightarrow> None)"

text \<open>The firings of a run that starts with a scheduled invocation \<open>p\<close>.\<close>

fun firings_from :: "nat \<Rightarrow> (nat \<times> 'a) option \<Rightarrow> (nat \<times> 'a list) list \<Rightarrow> nat \<Rightarrow> (nat \<times> 'a) list" where
  "firings_from wait p [] T =
     (case p of Some (d, a) \<Rightarrow> if d \<le> T then [(d, a)] else [] | None \<Rightarrow> [])"
| "firings_from wait p ((tm, argss) # ts) T =
     (case p of Some (d, a) \<Rightarrow> if d \<le> tm then [(d, a)] else [] | None \<Rightarrow> [])
     @ firings_from wait (scheduled_after wait p tm argss) ts T"

text \<open>
  A throttled function is locked exactly while its one timer is pending.
\<close>

definition throttle_inv :: "'a throttled \<Rightarrow> bool" where
  "throttle_inv st =
     (case pending (t_timers st) of
        [] \<Rightarrow> \<not> inThrottle st
      | [t] \<Rightarrow> inThrottle st
      | _ \<Rightarrow> False)"

text \<open>The end of the lock of a throttled function, when it is locked.\<close>

definition lock_end :: "'a throttled \<Rightarrow> nat option" where
  "lock_end st = (case pending (t_timers st) of [t] \<Rightarrow> Some (due t) | _ \<Rightarrow> None)"

section \<open>Values\<close>

text \<open>
  The values that the storage helpers handle: \<open>undefined\<close>, \<open>null\<close>, booleans, numbers,
  strings, arrays and plain objects.

  A number is a finite decimal number \<open>m \<times> 10\<^sup>e\<close>, kept as \<open>VNumber m e\<close> in its one
  canonical form: \<open>m\<close> does not end in the digit 0, and zero is \<open>VNumber 0 0\<close>. A
  JavaScript Number stands for the shortest decimal that \<open>Number.prototype.toString\<close>
  writes for it; the rounding of a decimal text to the nearest Number, \<open>NaN\<close>, the
  infinities and the sign of zero are not modelled.

  An object is the list of its own properties in the order in which they are enumerated.
\<close>

datatype js_value =
    VUndefined
  | VNull
  | VBool bool
  | VNumber int int
  | VString string
  | VArray "js_value list"
  | VObject "(string \<times> js_value) list"

definition canonical :: "int \<Rightarrow> int \<Rightarrow> bool" where
  "canonical m e = (if m = 0 then e = 0 else m mod 10 \<noteq> 0)"

text \<open>The canonical form of \<open>m \<times> 10\<^sup>e\<close>: the trailing zeros of \<open>m\<close> move to the exponent.\<close>

function normalize :: "int \<Rightarrow> int \<Rightarrow> int \<times> int" where
  "normalize m e =
     (if m = 0 then (0, 0)
      else if m mod 10 = 0 then normalize (m div 10) (e + 1)
      else (m, e))"
  by pat_completeness auto
termination
  by (relation "measure (\<lambda>(m, e). nat \<bar>m\<bar>)") auto

declare normalize.simps [simp del]

text \<open>\<open>typeof value\<close>.\<close>

definition typeof :: "js_value \<Rightarrow> string" where
  "typeof v =
     (case v of
        VUndefined \<Rightarrow> ''undefined''
      | VNull \<Rightarrow> ''object''
      | VBool b \<Rightarrow> ''boolean''
      | VNumber m e \<Rightarrow> ''number''
      | VString s \<Rightarrow> ''string''
      | VArray xs \<Rightarrow> ''object''
      | VObject kvs \<Rightarrow> ''object'')"

text \<open>\<open>sep.join\<close> of a list of strings.\<close>

fun join :: "string \<Rightarrow> string list \<Rightarrow> string" where
  "join sep [] = []"
| "join sep [x] = x"
| "join sep (x # y # ys) = x @ sep @ join sep (y # ys)"

text \<open>
  \<open>Number.prototype.toString\<close> for a positive number \<open>m \<times> 10\<^sup>e\<close> in canonical form.
  With \<open>k\<close> the number of digits of \<open>m\<close> and \<open>n = k + e\<close> the position of the decimal
  point: an integer below \<open>10\<^sup>2\<^sup>1\<close> is written with its digits and zeros, a number with
  the point inside its digits is written with the point, a small number down to
  \<open>10\<^sup>-\<^sup>7\<close> with leading zeros, and any other number with an exponent.
\<close>

definition positive_to_string :: "nat \<Rightarrow> int \<Rightarrow> string" where
  "positive_to_string m e =
     (let s = show_nat m;
          k = int (length s);
          n = k + e
      in if k \<le> n \<and> n \<le> 21 then s @ replicate (nat (n - k)) (CHR ''0'')
         else if 0 < n \<and> n \<le> 21 then take (nat n) s @ ''.'' @ drop (nat n) s
         else if - 6 < n \<and> n \<le> 0 then ''0.'' @ replicate (nat (- n)) (CHR ''0'') @ s
         else (if k = 1 then s else hd s # ''.'' @ tl s)
              @ ''e'' @ (if 0 \<le> n - 1 then ''+'' else ''-'') @ show_nat (nat \<bar>n - 1\<bar>))"

definition number_to_string :: "int \<Rightarrow> int \<Rightarrow> string" where
  "number_to_string m e =
     (if m = 0 then ''0''
      else if m < 0 then CHR ''-'' # positive_to_string (nat (- m)) e
      else positive_to_string (nat m) e)"

text \<open>
  \<open>String(value)\<close>, the conversion that \<open>localStorage.setItem\<close> applies to its
  arguments. In the text of an array \<open>null\<close> and \<open>undefined\<close> elements are empty.
\<close>

fun ToString :: "js_value \<Rightarrow> string" where
  "ToString VUndefined = ''undefined''"
| "ToString VNull = ''null''"
| "ToString (VBool b) = (if b then ''true'' else ''false'')"
| "ToString (VNumber m e) = number_to_string m e"
| "ToString (VString s) = s"
| "ToString (VArray xs) =
     join '','' (map (\<lambda>x. if x = VNull \<or> x = VUndefined then [] else ToString x) xs)"
| "ToString (VObject kvs) = ''[object Object]''"

section \<open>JSON text of a value\<close>

definition hex_digit :: "nat \<Rightarrow> char" where
  "hex_digit d = (if d < 10 then char_of (48 + d) else char_of (87 + d))"

text \<open>
  The text of one code unit inside a JSON string, as \<open>JSON.stringify\<close> writes it: the
  short escapes, \<open>\u00XX\<close> for the other control characters, and the code unit itself
  otherwise.
\<close>

definition json_escape :: "char \<Rightarrow> string" where
  "json_escape c =
     (let n = (of_char c :: nat) in
      if n = 8 then [CHR 0x5C, CHR ''b'']
      else if n = 9 then [CHR 0x5C, CHR ''t'']
      else if n = 10 then [CHR 0x5C, CHR ''n'']
      else if n = 12 then [CHR 0x5C, CHR ''f'']
      else if n = 13 then [CHR 0x5C, CHR ''r'']
      else if n = 34 then [CHR 0x5C, CHR 0x22]
      else if n = 92 then [CHR 0x5C, CHR 0x5C]
      else if n < 32 then
        [CHR 0x5C, CHR ''u'', CHR ''0'', CHR ''0'', hex_digit (n div 16), hex_digit (n mod 16)]
      else [c])"

definition QuoteJSONString :: "string \<Rightarrow> string" where
  "QuoteJSONString s = CHR 0x22 # concat (map json_escape s) @ [CHR 0x22]"

text \<open>
  \<open>JSON.stringify(value)\<close> without replacer and indentation. \<open>None\<close> is the result
  \<open>undefined\<close>, which \<open>undefined\<close> gives; inside an array it is written \<open>null\<close>, and
  a property with such a value is left out.
\<close>

fun JSON_stringify :: "js_value \<Rightarrow> string option" where
  "JSON_stringify VUndefined = None"
| "JSON_stringify VNull = Some ''null''"
| "JSON_stringify (VBool b) = Some (if b then ''true'' else ''false'')"
| "JSON_stringify (VNumber m e) = Some (number_to_string m e)"
| "JSON_stringify (VString s) = Some (QuoteJSONString s)"
| "JSON_stringify (VArray xs) =
     Some (''['' @ join '',''
             (map (\<lambda>x. case JSON_stringify x of None \<Rightarrow> ''null'' | Some t \<Rightarrow> t) xs) @ '']'')"
| "JSON_stringify (VObject kvs) =
     Some (''{'' @ join '',''
             (concat (map (\<lambda>kv. case JSON_stringify (snd kv) of
                             None \<Rightarrow> []
                           | Some t \<Rightarrow> [QuoteJSONString (fst kv) @ '':'' @ t]) kvs)) @ ''}'')"

section \<open>Properties of an object\<close>

text \<open>
  An array index is the canonical decimal text of a natural number below \<open>2\<^sup>3\<^sup>2 - 1\<close>. The
  own properties of an object are enumerated with the array indices first, in ascending
  order, and then the other keys in the order of their creation.
\<close>

definition array_index :: "string \<Rightarrow> nat option" where
  "array_index k =
     (if k \<noteq> [] \<and> list_all is_digit k \<and> (k = ''0'' \<or> hd k \<noteq> CHR ''0'')
         \<and> radix_value 10 k < 4294967295
      then Some (radix_value 10 k) else None)"

fun insert_index :: "nat \<Rightarrow> string \<times> 'v \<Rightarrow> (string \<times> 'v) list \<Rightarrow> (string \<times> 'v) list" where
  "insert_index n kv [] = [kv]"
| "insert_index n kv (x # xs) =
     (case array_index (fst x) of
        Some m \<Rightarrow> if m < n then x # insert_index n kv xs else kv # x # xs
      | None \<Rightarrow> kv # x # xs)"

text \<open>
  The definition of the own property \<open>k\<close> with the value \<open>v\<close>, as \<open>JSON.parse\<close> does
  it for each member of an object: an existing property keeps its place and takes the new
  value; a new one takes its place in the order of enumeration.
\<close>

definition obj_set :: "(string \<times> 'v) list \<Rightarrow> string \<Rightarrow> 'v \<Rightarrow> (string \<times> 'v) list" where
  "obj_set kvs k v =
     (if k \<in> fst ` set kvs then map (\<lambda>kv. if fst kv = k then (k, v) else kv) kvs
      else case array_index k of
             Some n \<Rightarrow> insert_index n (k, v) kvs
           | None \<Rightarrow> kvs @ [(k, v)])"

text \<open>The order of enumeration between two keys.\<close>

definition key_before :: "string \<Rightarrow> string \<Rightarrow> bool" where
  "key_before a b =
     (case array_index a of
        Some m \<Rightarrow> (case array_index b of Some n \<Rightarrow> m < n | None \<Rightarrow> True)
      | None \<Rightarrow> (case array_index b of Some n \<Rightarrow> False | None \<Rightarrow> True))"

section \<open>Reading JSON text\<close>

definition json_ws :: "char \<Rightarrow> bool" where
  "json_ws c = ((of_char c :: nat) \<in> {32, 9, 10, 13})"

definition skip_ws :: "string \<Rightarrow> string" where
  "skip_ws s = dropWhile json_ws s"

text \<open>The character that a short escape \<open>\x\<close> stands for.\<close>

definition unescape :: "char \<Rightarrow> char option" where
  "unescape x =
     (if x = CHR 0x22 \<or> x = CHR 0x5C \<or> x = CHR ''/'' then Some x
      else if x = CHR ''b'' then Some (char_of (8 :: nat))
      else if x = CHR ''f'' then Some (char_of (12 :: nat))
      else if x = CHR ''n'' then Some (char_of (10 :: nat))
      else if x = CHR ''r'' then Some (char_of (13 :: nat))
      else if x = CHR ''t'' then Some (char_of (9 :: nat))
      else None)"

definition prepend :: "char \<Rightarrow> (string \<times> string) option \<Rightarrow> (string \<times> string) option" where
  "prepend c res = (case res of None \<Rightarrow> None | Some (s, r) \<Rightarrow> Some (c # s, r))"

text \<open>
  The characters of a JSON string, after its opening quote: the string that they stand
  for, and the text that follows the closing quote. \<open>None\<close> is a syntax error. An escape
  \<open>\uXXXX\<close> above \<open>\u00FF\<close> stands for a code unit that the strings of this model do
  not have: such a text is outside the model, and it is rejected here.
\<close>

fun parse_chars :: "string \<Rightarrow> (string \<times> string) option" where
  "parse_chars [] = None"
| "parse_chars (c # r) =
     (if c = CHR 0x22 then Some ([], r)
      else if c = CHR 0x5C then
        (case r of
           [] \<Rightarrow> None
         | x # r1 \<Rightarrow>
             if x = CHR ''u'' then
               (case r1 of
                  h1 # h2 # h3 # h4 # r2 \<Rightarrow>
                    if alnum_value h1 < 16 \<and> alnum_value h2 < 16
                       \<and> alnum_value h3 < 16 \<and> alnum_value h4 < 16
                    then
                      (let code = radix_value 16 [h1, h2, h3, h4]
                       in if code < 256 then prepend (char_of code) (parse_chars r2) else None)
                    else None
                | _ \<Rightarrow> None)
             else
               (case unescape x of
                  None \<Rightarrow> None
                | Some ch \<Rightarrow> prepend ch (parse_chars r1)))
      else if (of_char c :: nat) < 32 then None
      else prepend c (parse_chars r))"

text \<open>
  A JSON number at the head of the text: an optional minus sign, an integer part without
  a leading zero, an optional fraction and an optional exponent. The value is exact.
\<close>

definition parse_exponent :: "string \<Rightarrow> (int \<times> string) option" where
  "parse_exponent s =
     (case s of
        [] \<Rightarrow> Some (0, s)
      | c # r \<Rightarrow>
          if c = CHR ''e'' \<or> c = CHR ''E'' then
            (let neg = (r \<noteq> [] \<and> hd r = CHR ''-'');
                 r = (if r \<noteq> [] \<and> (hd r = CHR ''+'' \<or> hd r = CHR ''-'') then tl r else r);
                 ds = takeWhile is_digit r
             in if ds = [] then None
                else Some (if neg then - int (radix_value 10 ds) else int (radix_value 10 ds),
                           dropWhile is_digit r))
          else Some (0, s))"

definition parse_number :: "string \<Rightarrow> (js_value \<times> string) option" where
  "parse_number s =
     (let neg = (s \<noteq> [] \<and> hd s = CHR ''-'');
          s = (if neg then tl s else s);
          ip = takeWhile is_digit s;
          s = dropWhile is_digit s;
          point = (s \<noteq> [] \<and> hd s = CHR ''.'');
          fp = (if point then takeWhile is_digit (tl s) else []);
          s = (if point then dropWhile is_digit (tl s) else s)
      in if ip = [] \<or> (1 < length ip \<and> hd ip = CHR ''0'') \<or> (point \<and> fp = []) then None
         else
           (case parse_exponent s of
              None \<Rightarrow> None
            | Some (ex, s) \<Rightarrow>
                (let M = int (radix_value 10 (ip @ fp));
                     (m, e) = normalize (if neg then - M else M) (ex - int (length fp))
                 in Some (VNumber m e, s))))"

lemma parse_chars_shorter: "parse_chars s = Some (t, r) \<Longrightarrow> length r < length s"
proof (induction s arbitrary: t r rule: parse_chars.induct)
  case 1
  then show ?case by simp
next
  case (2 c r')
  then show ?case
    by (auto simp: prepend_def Let_def split: if_splits list.splits option.splits)
       fastforce+
qed

lemma skip_ws_shorter: "skip_ws s = c # r \<Longrightarrow> length r < length s"
proof -
  assume "skip_ws s = c # r"
  then have "length (dropWhile json_ws s) = Suc (length r)"
    by (simp add: skip_ws_def)
  moreover have "length (dropWhile json_ws s) \<le> length s"
    by (rule length_dropWhile_le)
  ultimately show ?thesis
    by simp
qed

text \<open>
  A JSON value at the head of the text, after white space: the value and the text that
  follows it; then the elements of an array after \<open>[\<close> and the members of an object after
  \<open>{\<close>, each up to the closing bracket, with the elements and members read so far.
  \<open>None\<close> is a syntax error. The tests on the length of the text that is left only serve
  the termination of the definition: a value that was read has consumed text.
\<close>

function parse_value :: "string \<Rightarrow> (js_value \<times> string) option"
  and parse_elements :: "js_value list \<Rightarrow> string \<Rightarrow> (js_value \<times> string) option"
  and parse_members :: "(string \<times> js_value) list \<Rightarrow> string \<Rightarrow> (js_value \<times> string) option"
where
  "parse_value s =
     (case skip_ws s of
        [] \<Rightarrow> None
      | c # r \<Rightarrow>
          if c = CHR ''{'' then
            (case skip_ws r of
               [] \<Rightarrow> None
             | c' # r' \<Rightarrow> if c' = CHR ''}'' then Some (VObject [], r') else parse_members [] r)
          else if c = CHR ''['' then
            (case skip_ws r of
               [] \<Rightarrow> None
             | c' # r' \<Rightarrow> if c' = CHR '']'' then Some (VArray [], r') else parse_elements [] r)
          else if c = CHR 0x22 then
            (case parse_chars r of
               None \<Rightarrow> None
             | Some (str, r') \<Rightarrow> Some (VString str, r'))
          else if prefix ''true'' (c # r) then Some (VBool True, drop 4 (c # r))
          else if prefix ''false'' (c # r) then Some (VBool False, drop 5 (c # r))
          else if prefix ''null'' (c # r) then Some (VNull, drop 4 (c # r))
          else parse_number (c # r))"
| "parse_elements acc s =
     (case parse_value s of
        None \<Rightarrow> None
      | Some (v, r) \<Rightarrow>
          (case skip_ws r of
             [] \<Rightarrow> None
           | c # r' \<Rightarrow>
               if c = CHR '','' then
                 (if length r' < length s then parse_elements (acc @ [v]) r' else None)
               else if c = CHR '']'' then Some (VArray (acc @ [v]), r')
               else None))"
| "parse_members acc s =
     (case skip_ws s of
        [] \<Rightarrow> None
      | q # r \<Rightarrow>
          if q \<noteq> CHR 0x22 then None
          else
            (case parse_chars r of
               None \<Rightarrow> None
             | Some (k, r1) \<Rightarrow>
                 (case skip_ws r1 of
                    [] \<Rightarrow> None
                  | c # r2 \<Rightarrow>
                      if c \<noteq> CHR '':'' then None
                      else
                        (case parse_value r2 of
                           None \<Rightarrow> None
                         | Some (v, r3) \<Rightarrow>
                             (case skip_ws r3 of
                                [] \<Rightarrow> None
                              | c' # r4 \<Rightarrow>
                                  if c' = CHR '','' then
                                    (if length r4 < length s
                                     then parse_members (obj_set acc k v) r4 else None)
                                  else if c' = CHR ''}'' then Some (VObject (obj_set acc k v), r4)
                                  else None)))))"
  by pat_completeness auto
termination
proof (relation "measure (\<lambda>x. case x of
          Inl s \<Rightarrow> 2 * length s
        | Inr (Inl (acc, s)) \<Rightarrow> 2 * length s + 1
        | Inr (Inr (acc, s)) \<Rightarrow> 2 * length s + 1)")
  show "wf (measure (\<lambda>x. case x of
          Inl s \<Rightarrow> 2 * length s
        | Inr (Inl (acc, s)) \<Rightarrow> 2 * length s + 1
        | Inr (Inr (acc, s)) \<Rightarrow> 2 * length s + 1))"
    by simp
qed (auto dest!: skip_ws_shorter parse_chars_shorter)

declare parse_value.simps [simp del] parse_elements.simps [simp del] parse_members.simps [simp del]

text \<open>\<open>JSON.parse(text)\<close>; \<open>None\<close> is the \<open>SyntaxError\<close> that it throws.\<close>

definition JSON_parse :: "string \<Rightarrow> js_value option" where
  "JSON_parse text =
     (case parse_value text of
        None \<Rightarrow> None
      | Some (v, r) \<Rightarrow> if skip_ws r = [] then Some v else None)"

section \<open>Local storage helpers\<close>

text \<open>
  \<open>localStorage\<close>: a map from keys to strings. \<open>getItem\<close> gives \<open>null\<close> for an absent
  key (\<open>None\<close> here), and \<open>setItem\<close> stores the string of its argument. The quota of the
  storage is not modelled.
\<close>

type_synonym storage = "string \<rightharpoonup> string"

text \<open>\<open>defaultValue = null\<close>: the default takes the place of an argument \<open>undefined\<close>.\<close>

definition getStorageItem :: "string \<Rightarrow> js_value \<Rightarrow> storage \<Rightarrow> js_value" where
  "getStorageItem key defaultValue localStorage =
     (let defaultValue = (if defaultValue = VUndefined then VNull else defaultValue);
          saved = localStorage key
      in case saved of
           None \<Rightarrow> defaultValue
         | Some saved \<Rightarrow>
             (case JSON_parse saved of
                Some v \<Rightarrow> v
              | None \<Rightarrow> VString saved))"

definition setStorageItem :: "string \<Rightarrow> js_value \<Rightarrow> storage \<Rightarrow> storage" where
  "setStorageItem key value localStorage =
     (if typeof value = ''object'' then
        localStorage(key \<mapsto> (case JSON_stringify value of
                                  None \<Rightarrow> ToString VUndefined
                                | Some text \<Rightarrow> text))
      else localStorage(key \<mapsto> ToString value))"

text \<open>
  A JSON-serializable value: no \<open>undefined\<close> in it, its numbers in canonical form, and
  the properties of its objects with distinct keys in the order of enumeration.
\<close>

fun serializable :: "js_value \<Rightarrow> bool" where
  "serializable VUndefined = False"
| "serializable VNull = True"
| "serializable (VBool b) = True"
| "serializable (VNumber m e) = canonical m e"
| "serializable (VString s) = True"
| "serializable (VArray xs) = list_all serializable xs"
| "serializable (VObject kvs) =
     (distinct (map fst kvs) \<and> sorted_wrt key_before (map fst kvs)
      \<and> list_all (\<lambda>kv. serializable (snd kv)) kvs)"

section \<open>Text after a number and after a value\<close>

text \<open>A text that does not go on with a digit.\<close>

definition no_digit_head :: "string \<Rightarrow> bool" where
  "no_digit_head s = (case s of [] \<Rightarrow> True | c # r \<Rightarrow> \<not> is_digit c)"

text \<open>A text that cannot go on a number: it starts with no digit, point or exponent mark.\<close>

definition number_end :: "string \<Rightarrow> bool" where
  "number_end s =
     (case s of
        [] \<Rightarrow> True
      | c # r \<Rightarrow> \<not> is_digit c \<and> c \<noteq> CHR ''.'' \<and> c \<noteq> CHR ''e'' \<and> c \<noteq> CHR ''E'')"

text \<open>
  The text that follows a value inside a JSON text written by \<open>JSON.stringify\<close>: nothing,
  or a comma or closing bracket.
\<close>

definition delimited :: "string \<Rightarrow> bool" where
  "delimited s =
     (case s of
        [] \<Rightarrow> True
      | c # r \<Rightarrow> c = CHR '','' \<or> c = CHR '']'' \<or> c = CHR ''}'')"

text \<open>
  The text of a value as an element of an array or as the value of a property:
  \<open>null\<close> where \<open>JSON.stringify\<close> has no text.
\<close>

definition element_text :: "js_value \<Rightarrow> string" where
  "element_text x = (case JSON_stringify x of None \<Rightarrow> ''null'' | Some t \<Rightarrow> t)"

definition member_text :: "string \<times> js_value \<Rightarrow> string" where
  "member_text kv = QuoteJSONString (fst kv) @ '':'' @ element_text (snd kv)"

text \<open>The first character of the text of a value.\<close>

definition value_head :: "char \<Rightarrow> bool" where
  "value_head c =
     (is_digit c \<or> c = CHR ''-'' \<or> c = CHR ''{'' \<or> c = CHR ''['' \<or> c = CHR 0x22
      \<or> c = CHR ''t'' \<or> c = CHR ''f'' \<or> c = CHR ''n'')"

chapter \<open>Properties\<close>

section \<open>Properties of the escaping\<close>

lemma replace_all_append:
  "replace_all c r (xs @ ys) = replace_all c r xs @ replace_all c r ys"
  by (simp add: replace_all_def)

lemma replace_all_concat:
  "replace_all c r (concat (map f s)) = concat (map (\<lambda>x. replace_all c r (f x)) s)"
  by (induction s) (simp_all add: replace_all_append, simp add: replace_all_def)

lemma replace_all_as_map:
  "replace_all c r s = concat (map (\<lambda>x. replace_all c r [x]) s)"
  by (simp add: replace_all_def)

lemma five_passes_char:
  "replace_all (CHR ''>'') ''&gt;''
     (replace_all (CHR ''<'') ''&lt;''
        (replace_all (CHR 0x22) ''&quot;''
           (replace_all (CHR 0x27) ''&#39;''
              (replace_all (CHR ''&'') ''&amp;'' [x])))) = escape_char x"
  by (simp add: replace_all_def escape_char_def)

lemma escapeAttr_as_map: "escapeAttr (Text t) = concat (map escape_char t)"
proof -
  have "replace_all (CHR ''>'') ''&gt;''
     (replace_all (CHR ''<'') ''&lt;''
        (replace_all (CHR 0x22) ''&quot;''
           (replace_all (CHR 0x27) ''&#39;''
              (replace_all (CHR ''&'') ''&amp;'' t)))) = concat (map escape_char t)"
    by (subst replace_all_as_map [of "CHR ''&''"])
       (simp only: replace_all_concat five_passes_char)
  then show ?thesis
    by (simp add: escapeAttr_def)
qed

lemma escaped_escape_char: "escaped cs \<Longrightarrow> escaped (escape_char c @ cs)"
  by (simp add: escape_char_def references_def)

lemma escaped_concat_escape_char: "escaped (concat (map escape_char t))"
  by (induction t) (simp_all add: escaped_escape_char)

text \<open>
  C5. \<open>escapeAttr\<close> maps \<open>null\<close> and \<open>undefined\<close> to the empty string. For every
  other input it replaces each \<open>&\<close>, \<open>'\<close>, \<open>"\<close>, \<open><\<close>, \<open>>\<close> by its character
  reference and leaves every other code unit alone; the ampersand pass runs first, so the
  ampersands of the references written by the later passes are not escaped again (\<open><\<close>
  becomes \<open>&lt;\<close>, and an ampersand already in the text becomes \<open>&amp;\<close>). The
  result has no unescaped occurrence of the five characters.
\<close>

theorem escapeAttr_escapes:
  \<open>escapeAttr Null = [] \<and> escapeAttr Undefined = []
   \<and> escapeAttr (Text s) = concat (map escape_char s)
   \<and> escaped (escapeAttr (Text s))
   \<and> escapeAttr (Text ''<a href="x">Tom & Jerry's</a>'')
       = ''&lt;a href=&quot;x&quot;&gt;Tom &amp; Jerry&#39;s&lt;/a&gt;''
   \<and> escapeAttr (Text ''&lt;'') = ''&amp;lt;''\<close>
proof -
  have "escapeAttr Null = []" "escapeAttr Undefined = []"
    by (simp_all add: escapeAttr_def)
  moreover have "escaped (escapeAttr (Text s))"
    by (simp only: escapeAttr_as_map escaped_concat_escape_char)
  moreover have \<open>escapeAttr (Text ''<a href="x">Tom & Jerry's</a>'')
       = ''&lt;a href=&quot;x&quot;&gt;Tom &amp; Jerry&#39;s&lt;/a&gt;''\<close>
    by (simp add: escapeAttr_as_map escape_char_def)
  moreover have "escapeAttr (Text ''&lt;'') = ''&amp;lt;''"
    by (simp add: escapeAttr_as_map escape_char_def)
  ultimately show ?thesis
    by (simp add: escapeAttr_as_map)
qed

section \<open>Properties of the integer parser and the channel check\<close>

lemma radix_value_snoc: "radix_value R (xs @ [c]) = R * radix_value R xs + alnum_value c"
  by (simp add: radix_value_def)

lemma alnum_value_digit_char: "d < 10 \<Longrightarrow> alnum_value (digit_char d) = d"
  by (simp add: alnum_value_def digit_char_def Let_def)

lemma is_digit_digit_char: "d < 10 \<Longrightarrow> is_digit (digit_char d)"
  by (simp add: is_digit_def digit_char_def)

lemma show_nat_nonempty: "show_nat n \<noteq> []"
  by (subst show_nat.simps) simp

lemma show_nat_digits: "list_all is_digit (show_nat n)"
  by (induction n rule: show_nat.induct) (subst show_nat.simps, simp add: is_digit_digit_char)

lemma radix_value_show_nat: "radix_value 10 (show_nat n) = n"
proof (induction n rule: show_nat.induct)
  case (1 n)
  show ?case
  proof (cases "n < 10")
    case True
    then show ?thesis
      by (subst show_nat.simps) (simp add: radix_value_def alnum_value_digit_char)
  next
    case False
    with 1 show ?thesis
      by (subst show_nat.simps) (simp add: radix_value_snoc alnum_value_digit_char)
  qed
qed

lemma alnum_digit: "alnum_value c < 10 \<longleftrightarrow> is_digit c"
  by (auto simp: alnum_value_def is_digit_def Let_def)

lemma digit_not_space: "is_digit c \<Longrightarrow> \<not> is_space c"
  by (auto simp: is_digit_def is_space_def)

lemma digit_not_sign: "is_digit c \<Longrightarrow> c \<noteq> CHR ''+'' \<and> c \<noteq> CHR ''-''"
  by (auto simp: is_digit_def)

lemma sign_not_space: "\<not> is_space (CHR ''+'')" "\<not> is_space (CHR ''-'')"
  by (simp_all add: is_space_def)

lemma dropWhile_spaces:
  "list_all is_space ws \<Longrightarrow> \<not> is_space c \<Longrightarrow> dropWhile is_space (ws @ c # r) = c # r"
  by (induction ws) auto

lemma takeWhile_digits:
  "list_all is_digit ds \<Longrightarrow> (case rest of [] \<Rightarrow> True | c # _ \<Rightarrow> \<not> is_digit c)
   \<Longrightarrow> takeWhile is_digit (ds @ rest) = ds"
  by (induction ds) (auto split: list.splits)

lemma parseInt_10_eq:
  "parseInt v 10 =
     (let S = dropWhile is_space v;
          neg = (S \<noteq> [] \<and> hd S = CHR ''-'');
          S' = (if S \<noteq> [] \<and> (hd S = CHR ''+'' \<or> hd S = CHR ''-'') then tl S else S);
          Z = takeWhile is_digit S'
      in if Z = [] then None
         else Some (if neg then - int (radix_value 10 Z) else int (radix_value 10 Z)))"
  by (simp add: parseInt_def Let_def alnum_digit)

lemma reads_integer_prefix_parseInt:
  assumes "reads_integer_prefix v n"
  shows "parseInt v 10 = Some n"
proof -
  from assms obtain ws sgn ds rest where
    v: "v = ws @ sgn @ ds @ rest" and ws: "list_all is_space ws"
    and sgn: "sgn = [] \<or> sgn = ''+'' \<or> sgn = ''-''"
    and ds: "ds \<noteq> []" "list_all is_digit ds"
    and rest: "(case rest of [] \<Rightarrow> True | c # _ \<Rightarrow> \<not> is_digit c)"
    and n: "n = (if sgn = ''-'' then - int (radix_value 10 ds) else int (radix_value 10 ds))"
    unfolding reads_integer_prefix_def by blast
  from ds obtain d ds' where dd: "ds = d # ds'" "is_digit d"
    by (cases ds) auto
  have tk: "takeWhile is_digit (ds @ rest) = ds"
    using ds rest by (rule_tac takeWhile_digits)
  from sgn show ?thesis
  proof (elim disjE)
    assume s: "sgn = []"
    have "dropWhile is_space v = ds @ rest"
      using dropWhile_spaces [OF ws digit_not_space [OF dd(2)], of "ds' @ rest"]
      by (simp add: v s dd)
    then show ?thesis
      using tk ds digit_not_sign [OF dd(2)] by (simp add: parseInt_10_eq n s dd)
  next
    assume s: "sgn = ''+''"
    have "dropWhile is_space v = CHR ''+'' # ds @ rest"
      using dropWhile_spaces [OF ws sign_not_space(1), of "ds @ rest"]
      by (simp add: v s)
    then show ?thesis
      using tk ds by (simp add: parseInt_10_eq n s)
  next
    assume s: "sgn = ''-''"
    have "dropWhile is_space v = CHR ''-'' # ds @ rest"
      using dropWhile_spaces [OF ws sign_not_space(2), of "ds @ rest"]
      by (simp add: v s)
    then show ?thesis
      using tk ds by (simp add: parseInt_10_eq n s)
  qed
qed

lemma parseInt_reads_integer_prefix:
  assumes "parseInt v 10 = Some n"
  shows "reads_integer_prefix v n"
proof -
  define S where "S = dropWhile is_space v"
  define sgn where "sgn = (if S \<noteq> [] \<and> (hd S = CHR ''+'' \<or> hd S = CHR ''-'') then [hd S] else [])"
  define S' where "S' = (if S \<noteq> [] \<and> (hd S = CHR ''+'' \<or> hd S = CHR ''-'') then tl S else S)"
  define Z where "Z = takeWhile is_digit S'"
  have v: "v = takeWhile is_space v @ sgn @ Z @ dropWhile is_digit S'"
  proof -
    have "S = sgn @ S'"
      by (cases S) (auto simp: sgn_def S'_def)
    moreover have "S' = Z @ dropWhile is_digit S'"
      by (simp add: Z_def)
    ultimately have "S = sgn @ Z @ dropWhile is_digit S'"
      by simp
    then show ?thesis
      using takeWhile_dropWhile_id [of is_space v] by (simp add: S_def)
  qed
  have "parseInt v 10 = (if Z = [] then None
         else Some (if S \<noteq> [] \<and> hd S = CHR ''-'' then - int (radix_value 10 Z) else int (radix_value 10 Z)))"
    unfolding parseInt_10_eq Let_def S_def S'_def Z_def ..
  with assms have Z: "Z \<noteq> []"
    and n: "n = (if S \<noteq> [] \<and> hd S = CHR ''-'' then - int (radix_value 10 Z) else int (radix_value 10 Z))"
    by (auto split: if_splits)
  have sg: "(sgn = ''-'') = (S \<noteq> [] \<and> hd S = CHR ''-'')"
    by (auto simp: sgn_def)
  have "list_all is_space (takeWhile is_space v)"
    by (simp add: list_all_iff) (meson set_takeWhileD)
  moreover have "sgn = [] \<or> sgn = ''+'' \<or> sgn = ''-''"
    by (auto simp: sgn_def)
  moreover have "list_all is_digit Z"
    by (simp add: list_all_iff Z_def) (meson set_takeWhileD)
  moreover have "(case dropWhile is_digit S' of [] \<Rightarrow> True | c # _ \<Rightarrow> \<not> is_digit c)"
    by (metis (mono_tags, lifting) hd_dropWhile list.case_eq_if)
  ultimately show ?thesis
    unfolding reads_integer_prefix_def using v Z n sg by metis
qed

lemma parseInt_10: "parseInt v 10 = Some n \<longleftrightarrow> reads_integer_prefix v n"
  using reads_integer_prefix_parseInt parseInt_reads_integer_prefix by blast

lemma reads_integer_prefix_show_int: "reads_integer_prefix (show_int n) n"
  unfolding reads_integer_prefix_def
proof (intro exI conjI)
  show "show_int n = [] @ (if n < 0 then ''-'' else []) @ show_nat (nat \<bar>n\<bar>) @ []"
    by (simp add: show_int_def)
  show "n = (if (if n < 0 then ''-'' else []) = ''-'' then - int (radix_value 10 (show_nat (nat \<bar>n\<bar>)))
       else int (radix_value 10 (show_nat (nat \<bar>n\<bar>))))"
    by (simp add: radix_value_show_nat)
qed (simp_all add: show_nat_nonempty show_nat_digits)

lemma parseInt_show_int: "parseInt (show_int n) 10 = Some n"
  by (simp add: parseInt_10 reads_integer_prefix_show_int)

lemma as_specified_reads:
  assumes "isValidChannel_as_specified v"
  shows "\<exists>n. reads_integer_prefix v n \<and> 1 \<le> n \<and> n \<le> 200"
proof -
  define sgn where "sgn = (if v \<noteq> [] \<and> (hd v = CHR ''+'' \<or> hd v = CHR ''-'') then [hd v] else [])"
  define ds where "ds = (if v \<noteq> [] \<and> (hd v = CHR ''+'' \<or> hd v = CHR ''-'') then tl v else v)"
  define n where "n = (if sgn = ''-'' then - int (radix_value 10 ds) else int (radix_value 10 ds))"
  have sg: "(sgn = ''-'') = (v \<noteq> [] \<and> hd v = CHR ''-'')"
    by (auto simp: sgn_def)
  from assms have ds: "ds \<noteq> []" "list_all is_digit ds" and n: "1 \<le> n" "n \<le> 200"
    unfolding isValidChannel_as_specified_def Let_def ds_def [symmetric] n_def sg by simp_all
  have v: "v = [] @ sgn @ ds @ []"
    by (cases v) (auto simp: sgn_def ds_def)
  have "sgn = [] \<or> sgn = ''+'' \<or> sgn = ''-''"
    by (auto simp: sgn_def)
  with v ds have "reads_integer_prefix v n"
    unfolding reads_integer_prefix_def n_def
    by (intro exI [of _ "[]"] exI [of _ sgn] exI [of _ ds]) simp
  with n show ?thesis
    by blast
qed

text \<open>
  C9, as the source has it. \<open>isValidChannel\<close> returns a boolean on every text (it has
  no failing branch), and it returns true exactly when \<open>parseInt\<close> reads, at the head of
  the text, a base-10 integer that lies between 1 and 200; the text after the digits is
  ignored. So the decimal text of an integer \<open>n\<close> is a valid channel exactly when
  \<open>1 \<le> n \<le> 200\<close>, every text that the specification accepts is accepted, \<open>"6"\<close>
  is valid, \<open>"201"\<close> and \<open>"abc"\<close> are not, and \<open>"6abc"\<close>, \<open>"200.9"\<close> and
  \<open>"1e3"\<close> are valid as well.
\<close>

theorem isValidChannel_reads_prefix:
  "(isValidChannel v \<longleftrightarrow> (\<exists>n. reads_integer_prefix v n \<and> 1 \<le> n \<and> n \<le> 200))
   \<and> (isValidChannel (show_int n) \<longleftrightarrow> 1 \<le> n \<and> n \<le> 200)
   \<and> (isValidChannel_as_specified v \<longrightarrow> isValidChannel v)
   \<and> isValidChannel ''6'' \<and> \<not> isValidChannel ''201'' \<and> \<not> isValidChannel ''abc''
   \<and> isValidChannel ''6abc'' \<and> isValidChannel ''200.9'' \<and> isValidChannel ''1e3''"
proof -
  have 1: "isValidChannel v \<longleftrightarrow> (\<exists>n. reads_integer_prefix v n \<and> 1 \<le> n \<and> n \<le> 200)"
    by (cases "parseInt v 10") (auto simp: isValidChannel_def parseInt_10 [symmetric])
  have 2: "isValidChannel (show_int n) \<longleftrightarrow> 1 \<le> n \<and> n \<le> 200"
    by (simp add: isValidChannel_def parseInt_show_int)
  have 3: "isValidChannel_as_specified v \<longrightarrow> isValidChannel v"
    unfolding 1 using as_specified_reads by blast
  have 4: "isValidChannel ''6''" "\<not> isValidChannel ''201''" "\<not> isValidChannel ''abc''"
    "isValidChannel ''6abc''" "isValidChannel ''200.9''" "isValidChannel ''1e3''"
    by code_simp+
  from 1 2 3 4 show ?thesis
    by blast
qed

theorem isValidChannel_reads_prefix_witness:
  "isValidChannel_as_specified ''+11'' \<and> isValidChannel ''+11''"
proof -
  have "isValidChannel_as_specified ''+11''"
    by code_simp
  with isValidChannel_reads_prefix [of "''+11''" 0] show ?thesis
    by blast
qed

text \<open>
  The claim C9 as stated fails at \<open>"200.9"\<close> and at \<open>"6abc"\<close>: the first is a number
  out of the range and the second is not a number, the specification has both invalid, and
  the source reads the integers 200 and 6 at their heads and returns true.
\<close>

theorem isValidChannel_trailing_text_counterexample:
  "isValidChannel ''200.9'' \<and> \<not> isValidChannel_as_specified ''200.9''
   \<and> isValidChannel ''6abc'' \<and> \<not> isValidChannel_as_specified ''6abc''"
  by code_simp

section \<open>Properties of the icon choice\<close>

lemma str_includes_sublist: "str_includes t k \<longleftrightarrow> sublist k t"
  by (induction t) (simp_all add: sublist_Cons_right)

lemma forSignalType_classifyProtocol:
  "forSignalType type className = (classifyProtocol (or_empty type), className)"
  by (simp add: forSignalType_def classifyProtocol_def keyword_table_def Let_def
      str_includes_sublist)

text \<open>
  C2. \<open>Icons.forSignalType\<close> lowercases the label (the empty string for an absent
  label) and returns the icon of the first category, in the order WiFi, Bluetooth,
  Cellular, that has a keyword contained in the label, and the unknown-signal icon when
  there is none: \<open>"802.11ac"\<close> is WiFi, \<open>"BLE"\<close> is Bluetooth, \<open>"5G NR"\<close> is
  Cellular, the empty and the undefined label are unknown, and a label with keywords of
  two categories goes to the one tested first.
\<close>

theorem forSignalType_first_match:
  "fst (forSignalType type className) = classifyProtocol (or_empty type)
   \<and> snd (forSignalType type className) = className
   \<and> fst (forSignalType (Text ''802.11ac'') c) = wifi
   \<and> fst (forSignalType (Text ''BLE'') c) = bluetooth
   \<and> fst (forSignalType (Text ''5G NR'') c) = cellular
   \<and> fst (forSignalType (Text []) c) = signalUnknown
   \<and> fst (forSignalType Undefined c) = signalUnknown
   \<and> fst (forSignalType Null c) = signalUnknown
   \<and> fst (forSignalType (Text ''Zigbee'') c) = signalUnknown
   \<and> fst (forSignalType (Text ''Bluetooth via WiFi'') c) = wifi
   \<and> fst (forSignalType (Text ''LTE/BT'') c) = bluetooth"
proof -
  have "fst (forSignalType (Text ''802.11ac'') c) = wifi"
    "fst (forSignalType (Text ''BLE'') c) = bluetooth"
    "fst (forSignalType (Text ''5G NR'') c) = cellular"
    "fst (forSignalType (Text []) c) = signalUnknown"
    "fst (forSignalType Undefined c) = signalUnknown"
    "fst (forSignalType Null c) = signalUnknown"
    "fst (forSignalType (Text ''Zigbee'') c) = signalUnknown"
    "fst (forSignalType (Text ''Bluetooth via WiFi'') c) = wifi"
    "fst (forSignalType (Text ''LTE/BT'') c) = bluetooth"
    by code_simp+
  then show ?thesis
    by (simp add: forSignalType_classifyProtocol)
qed

section \<open>Properties of the frequency parser\<close>

lemma no_digit_takeWhile: "\<not> list_ex is_digit s \<Longrightarrow> takeWhile is_digit s = []"
  by (cases s) auto

lemma no_digit_parseFloat:
  assumes "\<not> list_ex is_digit s"
  shows "parseFloat s = None"
proof -
  have sub: "\<And>t. set t \<subseteq> set s \<Longrightarrow> takeWhile is_digit t = []"
    using assms by (intro no_digit_takeWhile) (auto simp: list_ex_iff)
  define S where "S = dropWhile is_space s"
  define S1 where "S1 = (if S \<noteq> [] \<and> (hd S = CHR ''+'' \<or> hd S = CHR ''-'') then tl S else S)"
  define S2 where "S2 = dropWhile is_digit S1"
  have 1: "set S \<subseteq> set s"
    unfolding S_def by (meson set_dropWhileD subsetI)
  have 2: "set S1 \<subseteq> set S"
    unfolding S1_def by (auto dest: list.set_sel(2))
  have 3: "set S2 \<subseteq> set S1"
    unfolding S2_def by (meson set_dropWhileD subsetI)
  have 4: "set (tl S2) \<subseteq> set S2"
    by (cases S2) auto
  have "takeWhile is_digit S1 = []" "takeWhile is_digit (tl S2) = []"
    using 1 2 3 4 by (auto intro!: sub)
  then show ?thesis
    unfolding parseFloat_def Let_def S_def [symmetric] S1_def [symmetric] S2_def [symmetric]
    by simp
qed

lemma no_digit_strip: "\<not> list_ex is_digit s \<Longrightarrow> \<not> list_ex is_digit (strip_non_numeric s)"
  by (auto simp: strip_non_numeric_def list_ex_iff)

lemma strip_keeps_minus:
  "filter (\<lambda>c. c = CHR ''-'') (strip_non_numeric s) = filter (\<lambda>c. c = CHR ''-'') s"
  unfolding strip_non_numeric_def filter_filter by (rule filter_cong) auto

text \<open>
  C7, as the source has it. \<open>parseFrequency\<close> removes every code unit that is not a
  digit, a decimal point or a minus sign, and a minus sign is kept wherever it stands, not
  only in front; then \<open>parseFloat\<close> reads the longest numeric prefix of what is left. A
  text without a digit gives \<open>NaN\<close>, and \<open>"118.000 MHz"\<close> gives 118.
\<close>

theorem parseFrequency_keeps_every_minus:
  "parseFrequency s = parseFloat (filter (\<lambda>c. is_digit c \<or> c = CHR ''.'' \<or> c = CHR ''-'') s)
   \<and> filter (\<lambda>c. c = CHR ''-'') (strip_non_numeric s) = filter (\<lambda>c. c = CHR ''-'') s
   \<and> (\<not> list_ex is_digit s \<longrightarrow> parseFrequency s = None)
   \<and> parseFrequency ''118.000 MHz'' = Some 118
   \<and> parseFrequency ''-118.5'' = Some (- 237 / 2)"
proof -
  have "\<not> list_ex is_digit s \<longrightarrow> parseFrequency s = None"
    by (simp add: parseFrequency_def no_digit_parseFloat no_digit_strip)
  moreover have "parseFrequency ''118.000 MHz'' = Some 118"
    by code_simp
  moreover have "parseFrequency ''-118.5'' = Some (- 237 / 2)"
    by code_simp
  ultimately show ?thesis
    by (simp add: strip_keeps_minus) (simp add: parseFrequency_def strip_non_numeric_def)
qed

theorem parseFrequency_keeps_every_minus_witness:
  "\<not> list_ex is_digit ''MHz'' \<and> parseFrequency ''MHz'' = None"
  using parseFrequency_keeps_every_minus [of "''MHz''", THEN conjunct2, THEN conjunct2, THEN conjunct1]
  by (simp add: is_digit_def)

text \<open>
  The claim C7 as stated fails at \<open>"1-5"\<close>: the minus sign does not lead the text, the
  source keeps it and reads 1, and the stripping of the claim would leave \<open>"15"\<close>.
\<close>

theorem parseFrequency_inner_minus_counterexample:
  "strip_non_numeric ''1-5'' = ''1-5'' \<and> strip_as_specified ''1-5'' = ''15''
   \<and> parseFrequency ''1-5'' = Some 1 \<and> parseFrequency_as_specified ''1-5'' = Some 15"
  by code_simp

section \<open>Properties of the rounding\<close>

lemma round_even_of_int: "round_even (of_int n) = n"
  by (simp add: round_even_def)

lemma round_even_lower: "of_int n \<le> q \<Longrightarrow> n \<le> round_even q"
proof -
  assume "of_int n \<le> q"
  then have "n \<le> \<lfloor>q\<rfloor>"
    by (simp add: le_floor_iff)
  then show ?thesis
    by (simp add: round_even_def Let_def)
qed

lemma round_even_upper: "q \<le> of_int n \<Longrightarrow> round_even q \<le> n"
proof -
  assume q: "q \<le> of_int n"
  show ?thesis
  proof (cases "q = of_int \<lfloor>q\<rfloor>")
    case True
    then have "round_even q = \<lfloor>q\<rfloor>"
      by (simp add: round_even_def)
    with q show ?thesis
      by (simp add: floor_le_iff)
  next
    case False
    then have "of_int \<lfloor>q\<rfloor> < q"
      using of_int_floor_le [of q] by argo
    with q have "of_int \<lfloor>q\<rfloor> < (of_int n :: real)"
      by simp
    then have "\<lfloor>q\<rfloor> + 1 \<le> n"
      by simp
    then show ?thesis
      by (simp add: round_even_def Let_def)
  qed
qed

lemma round_even_minus: "round_even (- q) = - round_even q"
proof (cases "q = of_int \<lfloor>q\<rfloor>")
  case True
  define n where "n = \<lfloor>q\<rfloor>"
  with True have "q = of_int n"
    by simp
  then show ?thesis
    using round_even_of_int [of "- n"] by (simp add: round_even_of_int)
next
  case False
  define f where "f = \<lfloor>q\<rfloor>"
  define d where "d = q - of_int f"
  from False have d: "0 < d" "d < 1"
    unfolding d_def f_def by linarith+
  have fl: "\<lfloor>- q\<rfloor> = - f - 1"
    using d unfolding d_def by (intro floor_unique) simp_all
  have d': "- q - of_int (- f - 1) = 1 - d"
    by (simp add: d_def)
  have ev: "even (- f - 1) = odd f"
    by simp
  show ?thesis
    unfolding round_even_def Let_def fl d' f_def [symmetric] d_def [symmetric] ev
    using d by auto
qed

lemma powr_powi: "2 powr (of_int n) = (2 :: real) powi n"
  by (rule powr_real_of_int') simp_all

lemma binade_minus: "binade (- x) = binade x"
  by (simp add: binade_def)

lemma binade_upper: "\<bar>x\<bar> < 2 powi (binade x + 1)"
proof (cases "x = 0")
  case True
  then show ?thesis
    by simp
next
  case False
  define l where "l = log 2 \<bar>x\<bar>"
  have "\<bar>x\<bar> = 2 powr l"
    using False by (simp add: l_def)
  also have "\<dots> < 2 powr (of_int (\<lfloor>l\<rfloor> + 1))"
    by (intro powr_less_mono) simp_all
  also have "\<dots> \<le> 2 powr (of_int (binade x + 1))"
    by (intro powr_mono) (simp_all add: binade_def l_def)
  also have "\<dots> = 2 powi (binade x + 1)"
    by (rule powr_powi)
  finally show ?thesis .
qed

lemma binade_lower:
  assumes "2 powi n \<le> \<bar>x\<bar>" "- 1022 \<le> n"
  shows "n \<le> binade x" "2 powi (binade x) \<le> \<bar>x\<bar>"
proof -
  from assms(1) have x: "0 < \<bar>x\<bar>"
    by (smt (verit) zero_less_power_int)
  define l where "l = log 2 \<bar>x\<bar>"
  have xl: "\<bar>x\<bar> = 2 powr l"
    using x by (simp add: l_def)
  from assms(1) xl have "2 powr (of_int n) \<le> 2 powr l"
    by (simp add: powr_powi)
  then have "of_int n \<le> l"
    by simp
  then have n: "n \<le> \<lfloor>l\<rfloor>"
    by (simp add: le_floor_iff)
  with assms(2) have b: "binade x = \<lfloor>l\<rfloor>"
    by (simp add: binade_def l_def)
  from n b show "n \<le> binade x"
    by simp
  have "(2 :: real) powi (binade x) = 2 powr (of_int \<lfloor>l\<rfloor>)"
    by (simp only: b powr_powi)
  also have "\<dots> \<le> 2 powr l"
    by (intro powr_mono) simp_all
  finally show "2 powi (binade x) \<le> \<bar>x\<bar>"
    by (simp add: xl)
qed

lemma rnd_nearest: "rnd x = (if 2 ^ 1024 \<le> \<bar>nearest x\<bar> then Infinity (x < 0) else Fin (nearest x))"
  by (simp add: rnd_def)

lemma nearest_minus: "nearest (- x) = - nearest x"
  by (simp add: nearest_def binade_minus round_even_minus)

lemma nearest_zero: "nearest 0 = 0"
  by (simp add: nearest_def round_even_def)

lemma nearest_upper: "\<bar>nearest x\<bar> \<le> 2 powi (binade x + 1)"
proof -
  define u :: real where "u = 2 powi (binade x - 52)"
  have u: "0 < u"
    by (simp add: u_def)
  have split: "(2 :: real) powi (binade x + 1) = 2 ^ 53 * u"
    unfolding u_def by (simp add: power_int_add power_int_diff)
  have "\<bar>x\<bar> < 2 ^ 53 * u"
    using binade_upper [of x] by (simp add: split)
  then have "\<bar>x\<bar> / u < 2 ^ 53"
    using u by (simp add: field_simps)
  then have "\<bar>x / u\<bar> < 2 ^ 53"
    using u by (simp add: abs_divide)
  define q where "q = x / u"
  from \<open>\<bar>x / u\<bar> < 2 ^ 53\<close> have le: "q \<le> of_int (2 ^ 53)" and ge: "of_int (- (2 ^ 53)) \<le> q"
    unfolding q_def [symmetric] by simp_all
  have "round_even q \<le> 2 ^ 53"
    using le by (rule round_even_upper)
  moreover have "- (2 ^ 53) \<le> round_even q"
    using ge by (rule round_even_lower)
  ultimately have "round_even q \<le> 2 ^ 53" "- (2 ^ 53) \<le> round_even q" .
  then have "\<bar>round_even q\<bar> \<le> 2 ^ 53"
    by simp
  then have "\<bar>of_int (round_even q) :: real\<bar> \<le> 2 ^ 53"
    by (metis of_int_abs of_int_le_iff of_int_numeral of_int_power)
  then have "\<bar>of_int (round_even q) * u\<bar> \<le> 2 ^ 53 * u"
    using u by (simp add: abs_mult)
  then show ?thesis
    by (simp add: nearest_def u_def [symmetric] q_def split)
qed

lemma nearest_lower:
  assumes "2 powi n \<le> \<bar>x\<bar>" "- 1022 \<le> n"
  shows "2 powi n \<le> \<bar>nearest x\<bar>"
proof -
  define u :: real where "u = 2 powi (binade x - 52)"
  have u: "0 < u"
    by (simp add: u_def)
  have split: "(2 :: real) powi (binade x) = 2 ^ 52 * u"
    unfolding u_def by (simp add: power_int_diff)
  have "2 ^ 52 * u \<le> \<bar>x\<bar>"
    using binade_lower(2) [OF assms] by (simp add: split)
  then have "2 ^ 52 \<le> \<bar>x\<bar> / u"
    using u by (simp add: field_simps)
  then have "2 ^ 52 \<le> \<bar>x / u\<bar>"
    using u by (simp add: abs_divide)
  define q where "q = x / u"
  from \<open>2 ^ 52 \<le> \<bar>x / u\<bar>\<close> have big: "2 ^ 52 \<le> \<bar>q\<bar>"
    unfolding q_def [symmetric] .
  have "2 ^ 52 \<le> \<bar>round_even q\<bar>"
  proof (cases "0 \<le> q")
    case True
    with big have "of_int (2 ^ 52) \<le> q"
      by simp
    then have "2 ^ 52 \<le> round_even q"
      by (rule round_even_lower)
    then show ?thesis
      by simp
  next
    case False
    with big have "q \<le> of_int (- (2 ^ 52))"
      by simp
    then have "round_even q \<le> - (2 ^ 52)"
      by (rule round_even_upper)
    then show ?thesis
      by simp
  qed
  then have "2 ^ 52 \<le> \<bar>of_int (round_even q) :: real\<bar>"
    by (metis of_int_abs of_int_le_iff of_int_numeral of_int_power)
  then have "2 ^ 52 * u \<le> \<bar>of_int (round_even q) * u\<bar>"
    using u by (simp add: abs_mult)
  then have "2 powi (binade x) \<le> \<bar>nearest x\<bar>"
    by (simp add: nearest_def u_def [symmetric] q_def split)
  moreover have "(2 :: real) powi n \<le> 2 powi (binade x)"
    using binade_lower(1) [OF assms] by (intro power_int_increasing) simp_all
  ultimately show ?thesis
    by simp
qed

lemma rnd_minus: "rnd (- x) = num_neg (rnd x)"
proof (cases "x = 0")
  case True
  then show ?thesis
    by (simp add: rnd_nearest nearest_zero num_neg_def)
next
  case False
  then show ?thesis
    by (auto simp: rnd_nearest nearest_minus num_neg_def)
qed

lemma rnd_zero: "rnd 0 = Fin 0"
  by (simp add: rnd_nearest nearest_zero)

lemma rnd_one: "rnd 1 = Fin 1"
proof -
  have "binade 1 = 0"
    by (simp add: binade_def)
  then have "nearest 1 = of_int (round_even (of_int (2 ^ 52))) * 2 powi (- 52)"
    by (simp add: nearest_def power_int_minus)
  then have "nearest 1 = 1"
    unfolding round_even_of_int by (simp add: power_int_minus)
  then show ?thesis
    by (simp add: rnd_nearest)
qed

text \<open>A real number below \<open>2^1023\<close> rounds to a finite Number, and one from \<open>2^1024\<close> on to an infinity.\<close>

lemma rnd_finite:
  assumes "\<bar>x\<bar> < 2 ^ 1023"
  shows "rnd x = Fin (nearest x)" "\<bar>nearest x\<bar> \<le> 2 ^ 1023"
proof -
  have "binade x + 1 \<le> 1023"
  proof (rule ccontr)
    assume "\<not> binade x + 1 \<le> 1023"
    then have b: "1023 \<le> binade x"
      by simp
    then have "\<lfloor>log 2 \<bar>x\<bar>\<rfloor> = binade x"
      by (simp add: binade_def max_def split: if_splits)
    with b have "1023 \<le> log 2 \<bar>x\<bar>"
      by linarith
    moreover from this have "x \<noteq> 0"
      by (auto simp: log_def)
    ultimately have "2 powr 1023 \<le> \<bar>x\<bar>"
      by (simp add: le_log_iff)
    with assms show False
      by simp
  qed
  then have "(2 :: real) powi (binade x + 1) \<le> 2 powi 1023"
    by (intro power_int_increasing) simp_all
  with nearest_upper [of x] show "\<bar>nearest x\<bar> \<le> 2 ^ 1023"
    by simp
  then show "rnd x = Fin (nearest x)"
    by (simp add: rnd_nearest)
qed

lemma rnd_overflow:
  assumes "2 ^ 1024 \<le> \<bar>x\<bar>"
  shows "rnd x = Infinity (x < 0)"
proof -
  have "(2 :: real) powi 1024 \<le> \<bar>nearest x\<bar>"
    using assms by (intro nearest_lower) simp_all
  then show ?thesis
    by (simp add: rnd_nearest)
qed

lemma rnd_unit:
  assumes "\<bar>x\<bar> \<le> 1"
  shows "rnd x = Fin (nearest x)" "\<bar>nearest x\<bar> \<le> 1"
proof -
  consider "x = 0" | "\<bar>x\<bar> = 1" | "x \<noteq> 0" "\<bar>x\<bar> < 1"
    using assms by fastforce
  then show "\<bar>nearest x\<bar> \<le> 1"
  proof cases
    case 1
    then show ?thesis
      by (simp add: nearest_zero)
  next
    case 2
    then have "x = 1 \<or> x = - 1"
      by auto
    moreover have "nearest 1 = 1"
      using rnd_one by (simp add: rnd_nearest split: if_splits)
    ultimately show ?thesis
      by (auto simp: nearest_minus)
  next
    case 3
    then have "log 2 \<bar>x\<bar> < 0"
      by simp
    then have "\<lfloor>log 2 \<bar>x\<bar>\<rfloor> \<le> - 1"
      by linarith
    then have "binade x + 1 \<le> 0"
      by (simp add: binade_def)
    then have "(2 :: real) powi (binade x + 1) \<le> 2 powi 0"
      by (intro power_int_increasing) simp_all
    with nearest_upper [of x] show ?thesis
      by simp
  qed
  then show "rnd x = Fin (nearest x)"
    by (simp add: rnd_nearest)
qed

section \<open>Properties of the operators\<close>

lemma num_neg_neg: "num_neg (num_neg x) = x"
  by (cases x) (simp_all add: num_neg_def)

lemma num_add_commute: "num_add x y = num_add y x"
  by (cases x; cases y) (auto simp: num_add_def add.commute)

lemma num_neg_add: "num_neg (num_add x y) = num_add (num_neg x) (num_neg y)"
proof (cases x; cases y)
  fix a b
  assume "x = Fin a" "y = Fin b"
  then show ?thesis
    using rnd_minus [of "a + b"] by (simp add: num_add_def num_neg_def)
qed (auto simp: num_add_def num_neg_def)

lemma num_sub_swap: "num_sub y x = num_neg (num_sub x y)"
  unfolding num_sub_def num_neg_add num_neg_neg by (rule num_add_commute)

lemma num_mul_commute: "num_mul x y = num_mul y x"
  by (cases x; cases y) (auto simp: num_mul_def mult.commute)

lemma num_mul_neg_left: "num_mul (num_neg x) y = num_neg (num_mul x y)"
proof (cases x; cases y)
  fix a b
  assume "x = Fin a" "y = Fin b"
  then show ?thesis
    using rnd_minus [of "a * b"] by (simp add: num_mul_def num_neg_def)
qed (auto simp: num_mul_def num_neg_def)

lemma num_mul_neg_right: "num_mul x (num_neg y) = num_neg (num_mul x y)"
  by (metis num_mul_commute num_mul_neg_left)

lemma num_mul_neg_neg: "num_mul (num_neg x) (num_neg x) = num_mul x x"
  by (simp add: num_mul_neg_left num_mul_neg_right num_neg_neg)

lemma num_div_neg_left: "num_div (num_neg x) y = num_neg (num_div x y)"
proof (cases x; cases y)
  fix a b
  assume "x = Fin a" "y = Fin b"
  then show ?thesis
    using rnd_minus [of "a / b"] by (auto simp: num_div_def num_neg_def)
qed (auto simp: num_div_def num_neg_def)

lemma Math_sin_neg:
  assumes "\<forall>r. lib_sin h (- r) = - lib_sin h r"
  shows "Math_sin h (num_neg x) = num_neg (Math_sin h x)"
proof (cases x)
  case (Fin a)
  then show ?thesis
    using assms rnd_minus [of "lib_sin h a"] by (simp add: Math_sin_def num_neg_def)
qed (simp_all add: Math_sin_def num_neg_def)

text \<open>\<open>NaN\<close> goes through every operation.\<close>

lemma NaN_through:
  "num_add x NaN = NaN" "num_add NaN y = NaN" "num_mul x NaN = NaN" "num_mul NaN y = NaN"
  "num_sub x NaN = NaN" "Math_sqrt NaN = NaN" "Math_atan2 h NaN y = NaN"
  by (simp_all add: num_add_def num_mul_def num_sub_def num_neg_def Math_sqrt_def
      Math_atan2_def split: number.splits)

lemma arc_NaN: "arc h R NaN = NaN"
  by (simp add: arc_def NaN_through)

section \<open>Properties of the distances\<close>

lemma calculateDistanceNm_arc:
  "calculateDistanceNm h lat1 lon1 lat2 lon2 = arc h (rnd 3440.065) (haversine h lat1 lon1 lat2 lon2)"
  by (simp add: calculateDistanceNm_def haversine_def arc_def Let_def)

lemma calculateDistanceKm_arc:
  "calculateDistanceKm h lat1 lon1 lat2 lon2 = arc h (Fin 6371) (haversine h lat1 lon1 lat2 lon2)"
  by (simp add: calculateDistanceKm_def haversine_def arc_def Let_def)

text \<open>
  The swap of the two points changes the sign of both differences, and with an odd sine
  the squares of the sines stay as they are.
\<close>

lemma half_angle_swap:
  assumes "\<forall>r. lib_sin h (- r) = - lib_sin h r"
  shows "Math_sin h (num_div (num_div (num_mul (num_sub p q) Math_PI) (Fin 180)) (Fin 2))
       = num_neg (Math_sin h (num_div (num_div (num_mul (num_sub q p) Math_PI) (Fin 180)) (Fin 2)))"
  by (subst num_sub_swap)
     (simp only: num_mul_neg_left num_div_neg_left Math_sin_neg [OF assms])

lemma haversine_swap:
  assumes "\<forall>r. lib_sin h (- r) = - lib_sin h r"
  shows "haversine h lat2 lon2 lat1 lon1 = haversine h lat1 lon1 lat2 lon2"
proof -
  define s where "s = Math_sin h (num_div (num_div (num_mul (num_sub lat2 lat1) Math_PI) (Fin 180)) (Fin 2))"
  define t where "t = Math_sin h (num_div (num_div (num_mul (num_sub lon2 lon1) Math_PI) (Fin 180)) (Fin 2))"
  define c1 where "c1 = Math_cos h (num_div (num_mul lat1 Math_PI) (Fin 180))"
  define c2 where "c2 = Math_cos h (num_div (num_mul lat2 Math_PI) (Fin 180))"
  have "haversine h lat2 lon2 lat1 lon1
      = num_add (num_mul (num_neg s) (num_neg s))
          (num_mul (num_mul (num_mul c2 c1) (num_neg t)) (num_neg t))"
    unfolding haversine_def Let_def half_angle_swap [OF assms, of lat1 lat2]
      half_angle_swap [OF assms, of lon1 lon2] s_def t_def c1_def c2_def ..
  also have "\<dots> = num_add (num_mul s s) (num_mul (num_mul (num_mul c1 c2) t) t)"
    by (simp only: num_mul_neg_left num_mul_neg_right num_neg_neg num_mul_commute [of c2 c1])
  also have "\<dots> = haversine h lat1 lon1 lat2 lon2"
    unfolding haversine_def Let_def s_def t_def c1_def c2_def ..
  finally show ?thesis .
qed

text \<open>A point of finite coordinates against itself: both differences are zero.\<close>

lemma half_angle_zero:
  "Math_sin h (num_div (num_div (num_mul (num_sub (Fin y) (Fin y)) Math_PI) (Fin 180)) (Fin 2)) = Fin 0"
  by (simp add: num_sub_def num_neg_def num_add_def num_mul_def num_div_def Math_PI_def
      Math_sin_def rnd_zero)

lemma haversine_same:
  "haversine h (Fin x) (Fin y) (Fin x) (Fin y)
   = num_add (Fin 0)
       (num_mul (num_mul
          (num_mul (Math_cos h (num_div (num_mul (Fin x) Math_PI) (Fin 180)))
                   (Math_cos h (num_div (num_mul (Fin x) Math_PI) (Fin 180))))
          (Fin 0)) (Fin 0))"
  unfolding haversine_def Let_def half_angle_zero
  by (simp add: num_mul_def rnd_zero)

text \<open>
  The latitude in radians is finite for a latitude up to \<open>10^307\<close>, and then its cosine
  is a finite Number, which zero annihilates; from \<open>2^1023\<close> on the product with
  \<open>Math.PI\<close> overflows, and the cosine of the infinity is \<open>NaN\<close>.
\<close>

lemma cos_finite:
  assumes "\<forall>r. \<bar>lib_cos h r\<bar> \<le> 1" "\<bar>x\<bar> \<le> 10 ^ 307"
  shows "\<exists>c. Math_cos h (num_div (num_mul (Fin x) Math_PI) (Fin 180)) = Fin c \<and> \<bar>c\<bar> \<le> 1"
proof -
  define p :: real where "p = 884279719003555 / 281474976710656"
  have p: "0 < p" "p < 4"
    by (simp_all add: p_def)
  have "\<bar>x * p\<bar> \<le> 10 ^ 307 * 4"
    unfolding abs_mult using assms(2) p by (intro mult_mono) simp_all
  also have "\<dots> < 2 ^ 1023"
    by simp
  finally have xp: "\<bar>x * p\<bar> < 2 ^ 1023" .
  define r where "r = nearest (x * p)"
  from rnd_finite [OF xp] have m: "num_mul (Fin x) Math_PI = Fin r" and r: "\<bar>r\<bar> \<le> 2 ^ 1023"
    by (simp_all add: num_mul_def Math_PI_def p_def r_def)
  have "\<bar>r / 180\<bar> < 2 ^ 1023"
    using r by simp
  from rnd_finite [OF this] have d: "num_div (Fin r) (Fin 180) = Fin (nearest (r / 180))"
    by (simp add: num_div_def)
  show ?thesis
  proof (cases "nearest (r / 180) = 0")
    case True
    then show ?thesis
      by (simp add: m d Math_cos_def)
  next
    case False
    then show ?thesis
      using rnd_unit [of "lib_cos h (nearest (r / 180))"] assms(1)
      by (simp add: m d Math_cos_def)
  qed
qed

lemma haversine_same_zero:
  assumes "\<forall>r. \<bar>lib_cos h r\<bar> \<le> 1" "\<bar>x\<bar> \<le> 10 ^ 307"
  shows "haversine h (Fin x) (Fin y) (Fin x) (Fin y) = Fin 0"
proof -
  from cos_finite [OF assms] obtain c
    where c: "Math_cos h (num_div (num_mul (Fin x) Math_PI) (Fin 180)) = Fin c" and "\<bar>c\<bar> \<le> 1"
    by blast
  then have "\<bar>c * c\<bar> \<le> 1"
    using mult_le_one [of "\<bar>c\<bar>" "\<bar>c\<bar>"] by (simp add: abs_mult)
  from rnd_unit(1) [OF this] show ?thesis
    unfolding haversine_same c by (simp add: num_mul_def num_add_def rnd_zero)
qed

lemma arc_zero:
  assumes "\<bar>R\<bar> < 2 ^ 1023"
  shows "arc h (rnd R) (Fin 0) = Fin 0"
  using rnd_finite(1) [OF assms]
  by (simp add: arc_def Math_sqrt_def num_sub_def num_neg_def num_add_def rnd_zero rnd_one
      Math_atan2_def num_mul_def)

lemma haversine_same_NaN:
  assumes "2 ^ 1023 \<le> \<bar>x\<bar>"
  shows "haversine h (Fin x) (Fin y) (Fin x) (Fin y) = NaN"
proof -
  define p :: real where "p = 884279719003555 / 281474976710656"
  have "2 ^ 1023 * 2 \<le> \<bar>x\<bar> * p"
    using assms by (intro mult_mono) (simp_all add: p_def)
  then have "2 ^ 1024 \<le> \<bar>x * p\<bar>"
    by (simp add: abs_mult p_def)
  from rnd_overflow [OF this] have "num_mul (Fin x) Math_PI = Infinity (x * p < 0)"
    by (simp add: num_mul_def Math_PI_def p_def)
  then have "Math_cos h (num_div (num_mul (Fin x) Math_PI) (Fin 180)) = NaN"
    by (simp add: num_div_def Math_cos_def)
  then show ?thesis
    unfolding haversine_same by (simp add: NaN_through)
qed

text \<open>
  C1, as the source has it. With an odd sine of the host, the two orders of the points
  give the same Number, so the two distances are equal under \<open>==\<close> unless they are
  \<open>NaN\<close>; where rounding or overflow makes the distance \<open>NaN\<close> it equals nothing, itself
  included. The distance from a point of finite coordinates to itself is 0 when the
  cosine of the host stays within 1 and the latitude is at most \<open>10^307\<close>, and it is
  \<open>NaN\<close> when the latitude reaches \<open>2^1023\<close>, for then its product with \<open>Math.PI\<close>
  overflows.
\<close>

theorem distance_symmetric_unless_NaN:
  "((\<forall>r. lib_sin h (- r) = - lib_sin h r) \<longrightarrow>
      calculateDistanceNm h lat2 lon2 lat1 lon1 = calculateDistanceNm h lat1 lon1 lat2 lon2
      \<and> calculateDistanceKm h lat2 lon2 lat1 lon1 = calculateDistanceKm h lat1 lon1 lat2 lon2
      \<and> (equals (calculateDistanceNm h lat1 lon1 lat2 lon2) (calculateDistanceNm h lat2 lon2 lat1 lon1)
           \<longleftrightarrow> calculateDistanceNm h lat1 lon1 lat2 lon2 \<noteq> NaN)
      \<and> (equals (calculateDistanceKm h lat1 lon1 lat2 lon2) (calculateDistanceKm h lat2 lon2 lat1 lon1)
           \<longleftrightarrow> calculateDistanceKm h lat1 lon1 lat2 lon2 \<noteq> NaN))
   \<and> ((\<forall>r. \<bar>lib_cos h r\<bar> \<le> 1) \<and> \<bar>x\<bar> \<le> 10 ^ 307 \<longrightarrow>
      calculateDistanceNm h (Fin x) (Fin y) (Fin x) (Fin y) = Fin 0
      \<and> calculateDistanceKm h (Fin x) (Fin y) (Fin x) (Fin y) = Fin 0)
   \<and> (2 ^ 1023 \<le> \<bar>x\<bar> \<longrightarrow>
      calculateDistanceNm h (Fin x) (Fin y) (Fin x) (Fin y) = NaN
      \<and> calculateDistanceKm h (Fin x) (Fin y) (Fin x) (Fin y) = NaN)"
proof -
  have swap: "calculateDistanceNm h lat2 lon2 lat1 lon1 = calculateDistanceNm h lat1 lon1 lat2 lon2"
    "calculateDistanceKm h lat2 lon2 lat1 lon1 = calculateDistanceKm h lat1 lon1 lat2 lon2"
    if "\<forall>r. lib_sin h (- r) = - lib_sin h r"
    by (simp_all only: calculateDistanceNm_arc calculateDistanceKm_arc haversine_swap [OF that])
  have sym: "(\<forall>r. lib_sin h (- r) = - lib_sin h r) \<longrightarrow>
      calculateDistanceNm h lat2 lon2 lat1 lon1 = calculateDistanceNm h lat1 lon1 lat2 lon2
      \<and> calculateDistanceKm h lat2 lon2 lat1 lon1 = calculateDistanceKm h lat1 lon1 lat2 lon2
      \<and> (equals (calculateDistanceNm h lat1 lon1 lat2 lon2) (calculateDistanceNm h lat2 lon2 lat1 lon1)
           \<longleftrightarrow> calculateDistanceNm h lat1 lon1 lat2 lon2 \<noteq> NaN)
      \<and> (equals (calculateDistanceKm h lat1 lon1 lat2 lon2) (calculateDistanceKm h lat2 lon2 lat1 lon1)
           \<longleftrightarrow> calculateDistanceKm h lat1 lon1 lat2 lon2 \<noteq> NaN)"
    using swap by (simp add: equals_def)
  have km: "arc h (Fin 6371) (Fin 0) = Fin 0"
    by (simp add: arc_def Math_sqrt_def num_sub_def num_neg_def num_add_def rnd_zero rnd_one
        Math_atan2_def num_mul_def)
  have z1: "calculateDistanceNm h (Fin x) (Fin y) (Fin x) (Fin y) = Fin 0"
    if "\<forall>r. \<bar>lib_cos h r\<bar> \<le> 1" "\<bar>x\<bar> \<le> 10 ^ 307"
    unfolding calculateDistanceNm_arc haversine_same_zero [OF that] by (rule arc_zero) simp
  have z2: "calculateDistanceKm h (Fin x) (Fin y) (Fin x) (Fin y) = Fin 0"
    if "\<forall>r. \<bar>lib_cos h r\<bar> \<le> 1" "\<bar>x\<bar> \<le> 10 ^ 307"
    unfolding calculateDistanceKm_arc haversine_same_zero [OF that] by (rule km)
  have zero: "(\<forall>r. \<bar>lib_cos h r\<bar> \<le> 1) \<and> \<bar>x\<bar> \<le> 10 ^ 307 \<longrightarrow>
      calculateDistanceNm h (Fin x) (Fin y) (Fin x) (Fin y) = Fin 0
      \<and> calculateDistanceKm h (Fin x) (Fin y) (Fin x) (Fin y) = Fin 0"
    using z1 z2 by blast
  have nan: "2 ^ 1023 \<le> \<bar>x\<bar> \<longrightarrow>
      calculateDistanceNm h (Fin x) (Fin y) (Fin x) (Fin y) = NaN
      \<and> calculateDistanceKm h (Fin x) (Fin y) (Fin x) (Fin y) = NaN"
    by (simp add: calculateDistanceNm_arc calculateDistanceKm_arc haversine_same_NaN arc_NaN)
  from sym zero nan show ?thesis
    by blast
qed

theorem distance_symmetric_unless_NaN_witness:
  "(\<forall>r. lib_sin exact_math (- r) = - lib_sin exact_math r)
   \<and> calculateDistanceNm exact_math (Fin 51.5074) (Fin (- 0.1278)) (Fin 40.7128) (Fin (- 74.006))
     = calculateDistanceNm exact_math (Fin 40.7128) (Fin (- 74.006)) (Fin 51.5074) (Fin (- 0.1278))
   \<and> (\<forall>r. \<bar>lib_cos exact_math r\<bar> \<le> 1) \<and> \<bar>45 :: real\<bar> \<le> 10 ^ 307
   \<and> calculateDistanceNm exact_math (Fin 45) (Fin 9) (Fin 45) (Fin 9) = Fin 0
   \<and> calculateDistanceKm exact_math (Fin 45) (Fin 9) (Fin 45) (Fin 9) = Fin 0
   \<and> (2 :: real) ^ 1023 \<le> \<bar>10 ^ 308\<bar>
   \<and> calculateDistanceKm exact_math (Fin (10 ^ 308)) (Fin 9) (Fin (10 ^ 308)) (Fin 9) = NaN"
proof -
  have s: "\<forall>r. lib_sin exact_math (- r) = - lib_sin exact_math r"
    and c: "\<forall>r. \<bar>lib_cos exact_math r\<bar> \<le> 1"
    by (simp_all add: exact_math_def)
  have b: "\<bar>45 :: real\<bar> \<le> 10 ^ 307" "(2 :: real) ^ 1023 \<le> \<bar>10 ^ 308\<bar>"
    by simp_all
  show ?thesis
    using s c b
      distance_symmetric_unless_NaN [of exact_math "Fin 51.5074" "Fin (- 0.1278)" "Fin 40.7128"
        "Fin (- 74.006)" 45 9]
      distance_symmetric_unless_NaN [of exact_math "Fin 51.5074" "Fin (- 0.1278)" "Fin 40.7128"
        "Fin (- 74.006)" "10 ^ 308" 9]
    by blast
qed

text \<open>
  The claim C1 as stated fails at the finite latitude \<open>2^1023\<close>: the distance from the
  point to itself is \<open>NaN\<close>, which is neither 0 nor equal to the distance in the other
  order, the same \<open>NaN\<close>.
\<close>

theorem distance_overflow_counterexample:
  "calculateDistanceNm exact_math (Fin (2 ^ 1023)) (Fin 0) (Fin (2 ^ 1023)) (Fin 0) = NaN
   \<and> \<not> equals (calculateDistanceNm exact_math (Fin (2 ^ 1023)) (Fin 0) (Fin (2 ^ 1023)) (Fin 0)) (Fin 0)
   \<and> \<not> equals (calculateDistanceNm exact_math (Fin (2 ^ 1023)) (Fin 0) (Fin (2 ^ 1023)) (Fin 0))
         (calculateDistanceNm exact_math (Fin (2 ^ 1023)) (Fin 0) (Fin (2 ^ 1023)) (Fin 0))
   \<and> calculateDistanceKm exact_math (Fin (2 ^ 1023)) (Fin 0) (Fin (2 ^ 1023)) (Fin 0) = NaN
   \<and> \<not> equals (calculateDistanceKm exact_math (Fin (2 ^ 1023)) (Fin 0) (Fin (2 ^ 1023)) (Fin 0)) (Fin 0)
   \<and> \<not> equals (calculateDistanceKm exact_math (Fin (2 ^ 1023)) (Fin 0) (Fin (2 ^ 1023)) (Fin 0))
         (calculateDistanceKm exact_math (Fin (2 ^ 1023)) (Fin 0) (Fin (2 ^ 1023)) (Fin 0))"
proof -
  have "haversine exact_math (Fin (2 ^ 1023)) (Fin 0) (Fin (2 ^ 1023)) (Fin 0) = NaN"
    by (rule haversine_same_NaN) simp
  then have "calculateDistanceNm exact_math (Fin (2 ^ 1023)) (Fin 0) (Fin (2 ^ 1023)) (Fin 0) = NaN"
    "calculateDistanceKm exact_math (Fin (2 ^ 1023)) (Fin 0) (Fin (2 ^ 1023)) (Fin 0) = NaN"
    by (simp_all add: calculateDistanceNm_arc calculateDistanceKm_arc arc_NaN)
  then show ?thesis
    by (simp add: equals_def)
qed

section \<open>Properties of the relative time\<close>









lemma steady_clock_at:
  "\<bar>t\<bar> \<le> 8639999000000000 \<Longrightarrow> \<bar>z\<bar> \<le> 86400000 \<Longrightarrow> steady (clock_at t z)"
  by (simp add: steady_def clock_at_def)



section \<open>Properties of debounce\<close>

lemma next_due_Nil: "next_due tm [] = None"
  by (simp add: next_due_def)

lemma next_due_single: "next_due tm [t] = (if due t \<le> tm then Some t else None)"
  by (simp add: next_due_def)

lemma debounce_run_timers_idle:
  "pending (d_timers st) = [] \<Longrightarrow> debounce_run_timers tm st = st"
  by (subst debounce_run_timers.simps) (simp add: next_due_Nil)

lemma debounce_run_timers_single:
  assumes "pending (d_timers st) = [t]"
  shows "debounce_run_timers tm st =
     (if due t \<le> tm
      then st\<lparr>d_timers := (d_timers st)\<lparr>pending := []\<rparr>, d_calls := d_calls st @ [(due t, callback t)]\<rparr>
      else st)"
proof (cases "due t \<le> tm")
  case True
  let ?st' = "later (due t) (callback t) (st\<lparr>d_timers := (d_timers st)\<lparr>pending := remove1 t (pending (d_timers st))\<rparr>\<rparr>)"
  have 1: "?st' = st\<lparr>d_timers := (d_timers st)\<lparr>pending := []\<rparr>, d_calls := d_calls st @ [(due t, callback t)]\<rparr>"
    using assms by (simp add: later_def clearTimeout_def Let_def split: option.splits)
  have "debounce_run_timers tm st = debounce_run_timers tm ?st'"
    using assms True by (subst debounce_run_timers.simps) (simp add: next_due_single)
  also have "\<dots> = ?st'"
    by (rule debounce_run_timers_idle) (simp add: 1)
  finally show ?thesis
    using True 1 by simp
next
  case False
  then show ?thesis
    using assms by (subst debounce_run_timers.simps) (simp add: next_due_single)
qed

lemma debounce_inv_cases:
  assumes "debounce_inv st"
  obtains "pending (d_timers st) = []" "scheduled st = None"
  | t where "pending (d_timers st) = [t]" "timeout st = Some (handle t)" "scheduled st = Some (due t, callback t)"
  using assms unfolding debounce_inv_def scheduled_def
  by (auto split: list.splits)

lemma debounce_run_timers_inv:
  assumes "debounce_inv st"
  shows "debounce_inv (debounce_run_timers tm st)"
  using assms
  by (rule debounce_inv_cases)
     (auto simp: debounce_run_timers_idle debounce_run_timers_single debounce_inv_def)

lemma debounce_executedFunction_pending:
  assumes "debounce_inv st"
  shows "pending (d_timers (debounce_executedFunction wait tm args st))
       = [\<lparr>handle = next_handle (d_timers st), due = tm + wait, callback = args\<rparr>]
     \<and> timeout (debounce_executedFunction wait tm args st) = Some (next_handle (d_timers st))
     \<and> d_calls (debounce_executedFunction wait tm args st) = d_calls st"
  using assms
  by (rule debounce_inv_cases)
     (auto simp: debounce_executedFunction_def setTimeout_def clearTimeout_def Let_def split: option.splits)

lemma debounce_executedFunction_inv:
  assumes "debounce_inv st"
  shows "debounce_inv (debounce_executedFunction wait tm args st)"
  using debounce_executedFunction_pending [OF assms, of wait tm args]
  by (simp add: debounce_inv_def)

lemma debounce_inv_init: "debounce_inv debounce"
  by (simp add: debounce_inv_def debounce_def)

lemma debounce_run_timers_calls:
  assumes "debounce_inv st"
  shows "d_calls (debounce_run_timers tm st)
       = d_calls st @ (case scheduled st of Some (d, a) \<Rightarrow> if d \<le> tm then [(d, a)] else [] | None \<Rightarrow> [])"
  using assms
  by (rule debounce_inv_cases)
     (auto simp: debounce_run_timers_idle debounce_run_timers_single)

lemma debounce_run_timers_scheduled:
  assumes "debounce_inv st"
  shows "scheduled (debounce_run_timers tm st)
       = (case scheduled st of Some (d, a) \<Rightarrow> if d \<le> tm then None else Some (d, a) | None \<Rightarrow> None)"
  using assms
  by (rule debounce_inv_cases)
     (auto simp: debounce_run_timers_idle debounce_run_timers_single scheduled_def)

lemma scheduled_after_call:
  assumes "debounce_inv st"
  shows "scheduled (debounce_executedFunction wait tm args st) = Some (tm + wait, args)"
  using debounce_executedFunction_pending [OF assms, of wait tm args]
  by (simp add: scheduled_def)

text \<open>The calls of one task, made on a state \<open>st\<close> in which the timers have fired.\<close>

lemma debounce_task_calls:
  assumes "debounce_inv st"
  shows "debounce_inv (foldl (\<lambda>st args. debounce_executedFunction wait tm args st) st argss)
     \<and> d_calls (foldl (\<lambda>st args. debounce_executedFunction wait tm args st) st argss) = d_calls st
     \<and> scheduled (foldl (\<lambda>st args. debounce_executedFunction wait tm args st) st argss)
       = (if argss \<noteq> [] then Some (tm + wait, last argss) else scheduled st)"
proof (induction argss rule: rev_induct)
  case Nil
  show ?case
    using assms by simp
next
  case (snoc args argss)
  let ?st = "foldl (\<lambda>st args. debounce_executedFunction wait tm args st) st argss"
  from snoc have inv: "debounce_inv ?st" and calls: "d_calls ?st = d_calls st"
    by simp_all
  show ?case
    using debounce_executedFunction_inv [OF inv, of wait tm args]
      debounce_executedFunction_pending [OF inv, of wait tm args]
      scheduled_after_call [OF inv, of wait tm args] calls
    by simp
qed

lemma debounce_task_effect:
  assumes "debounce_inv st"
  shows "debounce_inv (debounce_task wait tm argss st)
     \<and> d_calls (debounce_task wait tm argss st)
       = d_calls st @ (case scheduled st of Some (d, a) \<Rightarrow> if d \<le> tm then [(d, a)] else [] | None \<Rightarrow> [])
     \<and> scheduled (debounce_task wait tm argss st) = scheduled_after wait (scheduled st) tm argss"
  unfolding debounce_task_def scheduled_after_def
  using debounce_task_calls [OF debounce_run_timers_inv [OF assms, of tm],
      where wait = wait and tm = tm and argss = argss]
    debounce_run_timers_calls [OF assms, of tm] debounce_run_timers_scheduled [OF assms, of tm]
  by simp

lemma debounce_tasks_inv:
  "debounce_inv st \<Longrightarrow> debounce_inv (debounce_tasks wait ts st)"
  by (induction wait ts st rule: debounce_tasks.induct) (simp_all add: debounce_task_effect)

lemma debounce_tasks_firings:
  assumes "debounce_inv st"
  shows "d_calls (debounce_run_timers T (debounce_tasks wait ts st))
       = d_calls st @ firings_from wait (scheduled st) ts T"
  using assms
proof (induction wait ts st rule: debounce_tasks.induct)
  case (1 wait st)
  then show ?case
    by (simp add: debounce_run_timers_calls)
next
  case (2 wait tm argss ts st)
  note eff = debounce_task_effect [OF "2.prems", of wait tm argss]
  from eff have "d_calls (debounce_run_timers T (debounce_tasks wait ((tm, argss) # ts) st))
      = d_calls (debounce_task wait tm argss st)
        @ firings_from wait (scheduled (debounce_task wait tm argss st)) ts T"
    using "2.IH" by simp
  then show ?case
    using eff by simp
qed

text \<open>Calls of one task that follow one another: only the last one counts.\<close>

lemma quiet_firings_same_time:
  "quiet_firings wait ((tm, x) # map (Pair tm) xs @ cs) T
   = quiet_firings wait ((tm, last (x # xs)) # cs) T"
  by (induction xs arbitrary: x) simp_all

lemma calls_of_Cons:
  "calls_of ((tm, argss) # ts) = map (Pair tm) argss @ calls_of ts"
  by (simp add: calls_of_def)

lemma firings_from_quiet:
  assumes "calling ts" "successively (\<lambda>a b. a < b \<and> b \<noteq> a + wait) (tm # map fst ts)"
  shows "firings_from wait (Some (tm + wait, args)) ts T
       = quiet_firings wait ((tm, args) # calls_of ts) T"
  using assms
proof (induction ts arbitrary: tm args)
  case Nil
  show ?case
    by (simp add: calls_of_def)
next
  case (Cons task ts)
  obtain tm' argss where task: "task = (tm', argss)"
    by (cases task)
  from Cons.prems task obtain x xs where argss: "argss = x # xs"
    by (cases argss) (auto simp: calling_def)
  from Cons.prems task have tie: "tm < tm'" "tm' \<noteq> tm + wait"
    and rest: "calling ts" "successively (\<lambda>a b. a < b \<and> b \<noteq> a + wait) (tm' # map fst ts)"
    by (simp_all add: calling_def)
  have "firings_from wait (Some (tm + wait, args)) (task # ts) T
      = (if tm + wait \<le> tm' then [(tm + wait, args)] else [])
        @ firings_from wait (Some (tm' + wait, last argss)) ts T"
    by (simp add: task argss scheduled_after_def)
  also have "firings_from wait (Some (tm' + wait, last argss)) ts T
      = quiet_firings wait ((tm', last argss) # calls_of ts) T"
    using rest by (rule Cons.IH)
  also have "\<dots> = quiet_firings wait ((tm', x) # map (Pair tm') xs @ calls_of ts) T"
    by (simp only: argss quiet_firings_same_time)
  also have "(tm + wait \<le> tm') = (tm + wait < tm')"
    using tie by auto
  finally show ?case
    by (simp add: task argss calls_of_Cons)
qed

lemma firings_from_None:
  assumes "calling ts" "apart wait ts"
  shows "firings_from wait None ts T = quiet_firings wait (calls_of ts) T"
proof (cases ts)
  case Nil
  then show ?thesis
    by (simp add: calls_of_def)
next
  case (Cons task ts')
  obtain tm argss where task: "task = (tm, argss)"
    by (cases task)
  from assms Cons task obtain x xs where argss: "argss = x # xs"
    by (cases argss) (auto simp: calling_def)
  from assms Cons task have rest: "calling ts'"
    "successively (\<lambda>a b. a < b \<and> b \<noteq> a + wait) (tm # map fst ts')"
    by (simp_all add: calling_def apart_def)
  have "firings_from wait None ts T = firings_from wait (Some (tm + wait, last argss)) ts' T"
    by (simp add: Cons task argss scheduled_after_def)
  also have "\<dots> = quiet_firings wait ((tm, last argss) # calls_of ts') T"
    using rest by (rule firings_from_quiet)
  also have "\<dots> = quiet_firings wait ((tm, x) # map (Pair tm) xs @ calls_of ts') T"
    by (simp only: argss quiet_firings_same_time)
  finally show ?thesis
    by (simp add: Cons task argss calls_of_Cons)
qed

text \<open>
  C3. The delay \<open>wait\<close> is one that the hosts keep, below \<open>2^31\<close>. After any run of
  tasks, and after any calls of the task that runs, a call of the debounced function at
  time \<open>tm\<close> leaves exactly one scheduled invocation of \<open>func\<close>:
  the one of this call, due at \<open>tm + wait\<close> with the arguments of this call; an
  invocation scheduled before is cancelled, and \<open>func\<close> is not invoked by the call. So,
  in every run whose tasks each make a call and come apart from the moments at which the
  timers are due, the invocations of \<open>func\<close> up to a time \<open>T\<close> are those of the calls
  that were followed by a quiet period of \<open>wait\<close>, each \<open>wait\<close> after its call and with
  its arguments. For calls at 0, 10 and 20 with \<open>wait = 50\<close>, \<open>func\<close> is invoked once,
  at 70, with the arguments of the call at 20, and not before 70; for two calls of one
  task with \<open>wait = 0\<close>, \<open>func\<close> is invoked once, with the arguments of the second.
\<close>

theorem debounce_quiet_period:
  "(wait < 2 ^ 31 \<longrightarrow>
      pending (d_timers (debounce_executedFunction wait tm (args :: 'a)
         (debounce_task wait tm argss (debounce_tasks wait ts debounce))))
      = [\<lparr>handle = next_handle (d_timers (debounce_task wait tm argss (debounce_tasks wait ts debounce))),
          due = tm + wait, callback = args\<rparr>]
      \<and> d_calls (debounce_executedFunction wait tm args
           (debounce_task wait tm argss (debounce_tasks wait ts debounce)))
        = d_calls (debounce_task wait tm argss (debounce_tasks wait ts debounce)))
   \<and> (wait < 2 ^ 31 \<and> calling ts \<and> apart wait ts \<longrightarrow>
        d_calls (debounce_run_timers T (debounce_tasks wait ts debounce))
        = quiet_firings wait (calls_of ts) T)
   \<and> (70 \<le> T \<longrightarrow>
        d_calls (debounce_run_timers T
          (debounce_tasks 50 [(0, [a :: 'a]), (10, [b]), (20, [c])] debounce))
        = [(70, c)])
   \<and> (T < 70 \<longrightarrow>
        d_calls (debounce_run_timers T
          (debounce_tasks 50 [(0, [a]), (10, [b]), (20, [c])] debounce))
        = [])
   \<and> d_calls (debounce_run_timers T (debounce_tasks 0 [(0, [a, b])] debounce)) = [(0, b)]"
proof -
  have inv: "debounce_inv (debounce_task wait tm argss (debounce_tasks wait ts debounce))"
    using debounce_task_effect [OF debounce_tasks_inv [OF debounce_inv_init]] by blast
  have run: "d_calls (debounce_run_timers T (debounce_tasks wait ts debounce))
      = firings_from wait None ts T"
    for wait T and ts :: "(nat \<times> 'a list) list"
  proof -
    have "scheduled (debounce :: 'a debounced) = None" "d_calls (debounce :: 'a debounced) = []"
      by (simp_all add: debounce_def scheduled_def)
    then show ?thesis
      using debounce_tasks_firings [OF debounce_inv_init, of T wait ts] by simp
  qed
  have quiet: "wait < 2 ^ 31 \<and> calling ts \<and> apart wait ts \<longrightarrow>
        d_calls (debounce_run_timers T (debounce_tasks wait ts debounce))
        = quiet_firings wait (calls_of ts) T"
    unfolding run by (simp add: firings_from_None)
  have ex: "d_calls (debounce_run_timers T (debounce_tasks 50 [(0, [a]), (10, [b]), (20, [c])] debounce))
      = (if 70 \<le> T then [(70, c)] else [])"
    unfolding run by (simp add: scheduled_after_def)
  have ex1: "70 \<le> T \<longrightarrow>
        d_calls (debounce_run_timers T (debounce_tasks 50 [(0, [a]), (10, [b]), (20, [c])] debounce))
        = [(70, c)]"
    and ex2: "T < 70 \<longrightarrow>
        d_calls (debounce_run_timers T (debounce_tasks 50 [(0, [a]), (10, [b]), (20, [c])] debounce))
        = []"
    unfolding ex by simp_all
  have ex3: "d_calls (debounce_run_timers T (debounce_tasks 0 [(0, [a, b])] debounce)) = [(0, b)]"
    unfolding run by (simp add: scheduled_after_def)
  from debounce_executedFunction_pending [OF inv, of wait tm args] quiet ex1 ex2 ex3
  show ?thesis
    by blast
qed

theorem debounce_quiet_period_witness:
  "(50 :: nat) < 2 ^ 31
   \<and> pending (d_timers (debounce_executedFunction 50 0 ''a'' (debounce_task 50 0 [] debounce)))
     = [\<lparr>handle = 1, due = 50, callback = ''a''\<rparr>]
   \<and> calling [(0, [''a'']), (10, [''b'', ''c'']), (100, [''d''])]
   \<and> apart 50 [(0, [''a'']), (10, [''b'', ''c'']), (100, [''d''])]
   \<and> d_calls (debounce_run_timers 120
        (debounce_tasks 50 [(0, [''a'']), (10, [''b'', ''c'']), (100, [''d''])] debounce))
     = [(60, ''c'')]
   \<and> (70 :: nat) \<le> 70
   \<and> d_calls (debounce_run_timers 70
        (debounce_tasks 50 [(0, [''a'']), (10, [''b'']), (20, [''c''])] debounce)) = [(70, ''c'')]
   \<and> (69 :: nat) < 70
   \<and> d_calls (debounce_run_timers 69
        (debounce_tasks 50 [(0, [''a'']), (10, [''b'']), (20, [''c''])] debounce)) = []"
proof -
  have h: "calling [(0 :: nat, [''a'']), (10, [''b'', ''c'']), (100, [''d''])]"
    "apart 50 [(0, [''a'']), (10, [''b'', ''c'']), (100, [''d''])]"
    by (simp_all add: calling_def apart_def)
  have q: "quiet_firings 50 (calls_of [(0, [''a'']), (10, [''b'', ''c'']), (100, [''d''])]) 120
      = [(60, ''c'')]"
    by (simp add: calls_of_def)
  have n: "next_handle (d_timers (debounce_task 50 0 [] (debounce_tasks 50 [] (debounce :: string debounced)))) = 1"
    by code_simp
  show ?thesis
    using h q n
      debounce_quiet_period [of 50 0 "''a''" "[]" "[]" 120 "''a''" "''b''" "''c''"]
      debounce_quiet_period [of 50 0 "''a''" "[]" "[(0, [''a'']), (10, [''b'', ''c'']), (100, [''d''])]"
        120 "''a''" "''b''" "''c''"]
      debounce_quiet_period [of 50 20 "''c''" "[]" "[]" 70 "''a''" "''b''" "''c''"]
      debounce_quiet_period [of 50 20 "''c''" "[]" "[]" 69 "''a''" "''b''" "''c''"]
    by simp
qed

section \<open>Properties of throttle\<close>

lemma throttle_run_timers_idle:
  "pending (t_timers st) = [] \<Longrightarrow> throttle_run_timers tm st = st"
  by (subst throttle_run_timers.simps) (simp add: next_due_Nil)

lemma throttle_run_timers_single:
  assumes "pending (t_timers st) = [t]"
  shows "throttle_run_timers tm st =
     (if due t \<le> tm
      then st\<lparr>t_timers := (t_timers st)\<lparr>pending := []\<rparr>, inThrottle := False\<rparr>
      else st)"
proof (cases "due t \<le> tm")
  case True
  let ?st' = "st\<lparr>t_timers := (t_timers st)\<lparr>pending := remove1 t (pending (t_timers st))\<rparr>,
                 inThrottle := False\<rparr>"
  have 1: "?st' = st\<lparr>t_timers := (t_timers st)\<lparr>pending := []\<rparr>, inThrottle := False\<rparr>"
    using assms by simp
  have "throttle_run_timers tm st = throttle_run_timers tm ?st'"
    using assms True by (subst throttle_run_timers.simps) (simp add: next_due_single)
  also have "\<dots> = ?st'"
    by (rule throttle_run_timers_idle) (simp add: 1)
  finally show ?thesis
    using True 1 by simp
next
  case False
  then show ?thesis
    using assms by (subst throttle_run_timers.simps) (simp add: next_due_single)
qed

lemma throttle_inv_cases:
  assumes "throttle_inv st"
  obtains "pending (t_timers st) = []" "\<not> inThrottle st" "lock_end st = None"
  | t where "pending (t_timers st) = [t]" "inThrottle st" "lock_end st = Some (due t)"
  using assms unfolding throttle_inv_def lock_end_def
  by (auto split: list.splits)

lemma throttle_inv_init: "throttle_inv throttle"
  by (simp add: throttle_inv_def throttle_def)

lemma throttle_run_timers_inv:
  assumes "throttle_inv st"
  shows "throttle_inv (throttle_run_timers tm st)"
  using assms
  by (rule throttle_inv_cases)
     (auto simp: throttle_run_timers_idle throttle_run_timers_single throttle_inv_def)

lemma throttle_run_timers_effect:
  assumes "throttle_inv st"
  shows "t_calls (throttle_run_timers tm st) = t_calls st
     \<and> lock_end (throttle_run_timers tm st)
       = (case lock_end st of Some e \<Rightarrow> if e \<le> tm then None else Some e | None \<Rightarrow> None)
     \<and> inThrottle (throttle_run_timers tm st)
       = (case lock_end st of Some e \<Rightarrow> \<not> e \<le> tm | None \<Rightarrow> False)"
  using assms
  by (rule throttle_inv_cases)
     (auto simp: throttle_run_timers_idle throttle_run_timers_single lock_end_def)

lemma throttle_inv_locked: "throttle_inv st \<Longrightarrow> inThrottle st \<longleftrightarrow> lock_end st \<noteq> None"
  by (erule throttle_inv_cases) simp_all

lemma throttle_executedFunction_unlocked:
  assumes "throttle_inv st" "\<not> inThrottle st"
  shows "throttle_executedFunction limit tm args st =
     st\<lparr>t_calls := t_calls st @ [(tm, args)], inThrottle := True,
        t_timers := \<lparr>pending = [\<lparr>handle = next_handle (t_timers st), due = tm + limit, callback = ()\<rparr>],
                     next_handle = Suc (next_handle (t_timers st))\<rparr>\<rparr>"
  using assms(1)
  by (rule throttle_inv_cases)
     (use assms(2) in \<open>auto simp: throttle_executedFunction_def setTimeout_def Let_def\<close>)

lemma throttle_executedFunction_locked:
  "inThrottle st \<Longrightarrow> throttle_executedFunction limit tm args st = st"
  by (simp add: throttle_executedFunction_def)

lemma throttle_executedFunction_inv:
  assumes "throttle_inv st"
  shows "throttle_inv (throttle_executedFunction limit tm args st)"
proof (cases "inThrottle st")
  case True
  then show ?thesis
    using assms by (simp add: throttle_executedFunction_locked)
next
  case False
  then show ?thesis
    by (simp add: throttle_executedFunction_unlocked [OF assms] throttle_inv_def)
qed

text \<open>The calls of one task: the first one fires when there is no lock, the others are dropped.\<close>

lemma throttle_calls_locked:
  "inThrottle st \<Longrightarrow> foldl (\<lambda>st args. throttle_executedFunction limit tm args st) st argss = st"
  by (induction argss) (simp_all add: throttle_executedFunction_locked)

lemma throttle_task_calls:
  assumes "throttle_inv st"
  shows "throttle_inv (foldl (\<lambda>st args. throttle_executedFunction limit tm args st) st argss)
     \<and> t_calls (foldl (\<lambda>st args. throttle_executedFunction limit tm args st) st argss)
       = t_calls st @ (if lock_end st = None \<and> argss \<noteq> [] then [(tm, hd argss)] else [])
     \<and> lock_end (foldl (\<lambda>st args. throttle_executedFunction limit tm args st) st argss)
       = (if lock_end st = None \<and> argss \<noteq> [] then Some (tm + limit) else lock_end st)"
proof (cases argss)
  case Nil
  then show ?thesis
    using assms by simp
next
  case (Cons x xs)
  show ?thesis
  proof (cases "inThrottle st")
    case True
    then show ?thesis
      using assms throttle_inv_locked [OF assms] by (simp add: throttle_calls_locked)
  next
    case False
    let ?st = "throttle_executedFunction limit tm x st"
    have l: "inThrottle ?st" "t_calls ?st = t_calls st @ [(tm, x)]"
      "lock_end ?st = Some (tm + limit)"
      by (simp_all add: throttle_executedFunction_unlocked [OF assms False] lock_end_def)
    have "foldl (\<lambda>st args. throttle_executedFunction limit tm args st) st argss = ?st"
      using l(1) by (simp add: Cons throttle_calls_locked)
    then show ?thesis
      using l False throttle_inv_locked [OF assms] throttle_executedFunction_inv [OF assms, of limit tm x]
      by (simp add: Cons)
  qed
qed

lemma throttle_task_effect:
  assumes "throttle_inv st"
  shows "throttle_inv (throttle_task limit tm argss st)
     \<and> t_calls (throttle_task limit tm argss st)
       = t_calls st @ (if lock_end (throttle_run_timers tm st) = None \<and> argss \<noteq> []
                       then [(tm, hd argss)] else [])
     \<and> lock_end (throttle_task limit tm argss st)
       = (if lock_end (throttle_run_timers tm st) = None \<and> argss \<noteq> []
          then Some (tm + limit) else lock_end (throttle_run_timers tm st))"
  unfolding throttle_task_def
  using throttle_task_calls [OF throttle_run_timers_inv [OF assms, of tm],
      where limit = limit and tm = tm and argss = argss]
    throttle_run_timers_effect [OF assms, of tm]
  by simp

lemma throttle_tasks_inv:
  "throttle_inv st \<Longrightarrow> throttle_inv (throttle_tasks limit ts st)"
  by (induction limit ts st rule: throttle_tasks.induct) (simp_all add: throttle_task_effect)

lemma leading_firings_locked:
  "tm \<le> e \<Longrightarrow> leading_firings limit (Some e) (map (Pair tm) xs @ cs)
     = leading_firings limit (Some e) cs"
  by (induction xs) simp_all

lemma leading_firings_task:
  "leading_firings limit lock (map (Pair tm) argss @ cs)
   = (if (case lock of None \<Rightarrow> True | Some e \<Rightarrow> e < tm) \<and> argss \<noteq> []
      then (tm, hd argss) # leading_firings limit (Some (tm + limit)) cs
      else if (case lock of None \<Rightarrow> True | Some e \<Rightarrow> e < tm) then leading_firings limit lock cs
      else leading_firings limit lock cs)"
proof (cases argss)
  case Nil
  then show ?thesis
    by simp
next
  case (Cons x xs)
  show ?thesis
  proof (cases "case lock of None \<Rightarrow> True | Some e \<Rightarrow> e < tm")
    case True
    then show ?thesis
      using leading_firings_locked [of tm "tm + limit" limit xs cs] by (simp add: Cons)
  next
    case False
    then obtain e where "lock = Some e" "tm \<le> e"
      by (cases lock) auto
    then show ?thesis
      using leading_firings_locked [of tm e limit "x # xs" cs] by (simp add: Cons)
  qed
qed

text \<open>A lock that has ended by the time of a call is the same as no lock.\<close>

lemma leading_firings_ended:
  assumes "\<forall>c \<in> set cs. e < fst c"
  shows "leading_firings limit (Some e) cs = leading_firings limit None cs"
  using assms by (cases cs) auto

lemma throttle_tasks_firings:
  assumes "throttle_inv st"
    and "sorted_wrt (<) (map fst ts)"
    and "\<forall>e. lock_end st = Some e \<longrightarrow> (\<forall>task \<in> set ts. fst task \<noteq> e)"
    and "\<forall>c \<in> set (leading_firings limit (lock_end st) (calls_of ts)).
           \<forall>task \<in> set ts. fst c < fst task \<longrightarrow> fst task \<noteq> fst c + limit"
  shows "t_calls (throttle_tasks limit ts st)
       = t_calls st @ leading_firings limit (lock_end st) (calls_of ts)"
  using assms
proof (induction ts arbitrary: st)
  case Nil
  show ?case
    by (simp add: calls_of_def)
next
  case (Cons task ts)
  obtain tm argss where task: "task = (tm, argss)"
    by (cases task)
  let ?st1 = "throttle_run_timers tm st"
  let ?st2 = "throttle_task limit tm argss st"
  define fired where "fired = (lock_end ?st1 = None \<and> argss \<noteq> [])"
  define F where "F = (if fired then [(tm, hd argss)] else [])"
  define L2 where "L2 = (if fired then Some (tm + limit) else lock_end ?st1)"
  note eff1 = throttle_run_timers_effect [OF Cons.prems(1), of tm]
  have eff2: "throttle_inv ?st2" "t_calls ?st2 = t_calls st @ F" "lock_end ?st2 = L2"
    using throttle_task_effect [OF Cons.prems(1), of limit tm argss]
    by (simp_all add: fired_def F_def L2_def)
  from Cons.prems(2) task have sorted: "sorted_wrt (<) (map fst ts)"
    and later: "\<forall>task' \<in> set ts. tm < fst task'"
    by auto
  have free: "(lock_end ?st1 = None) = (case lock_end st of None \<Rightarrow> True | Some e \<Rightarrow> e < tm)"
    using eff1 Cons.prems(3) task by (auto split: option.splits)
  have keep: "lock_end ?st1 = lock_end st" if "lock_end ?st1 \<noteq> None"
    using eff1 that by (auto split: option.splits if_splits)
  have ended: "leading_firings limit (lock_end st) (calls_of ts)
      = leading_firings limit (lock_end ?st1) (calls_of ts)"
  proof (cases "lock_end ?st1 = None")
    case False
    then show ?thesis
      using keep by simp
  next
    case True
    show ?thesis
    proof (cases "lock_end st")
      case None
      with True show ?thesis
        by simp
    next
      case (Some e)
      with True free have "e < tm"
        by simp
      with later have "\<forall>c \<in> set (calls_of ts). e < fst c"
        by (fastforce simp: calls_of_def)
      then show ?thesis
        using True Some by (simp add: leading_firings_ended)
    qed
  qed
  have split: "leading_firings limit (lock_end st) (calls_of (task # ts))
      = F @ leading_firings limit L2 (calls_of ts)"
    unfolding task calls_of_Cons leading_firings_task F_def L2_def fired_def free [symmetric]
    using ended by simp
  have lock': "\<forall>e. lock_end ?st2 = Some e \<longrightarrow> (\<forall>task' \<in> set ts. fst task' \<noteq> e)"
  proof (cases fired)
    case True
    then have "(tm, hd argss) \<in> set (leading_firings limit (lock_end st) (calls_of (task # ts)))"
      unfolding split by (simp add: F_def)
    with Cons.prems(4) have "\<forall>task' \<in> set (task # ts). tm < fst task' \<longrightarrow> fst task' \<noteq> tm + limit"
      by fastforce
    with True later show ?thesis
      by (simp add: eff2 L2_def)
  next
    case False
    then show ?thesis
      using keep Cons.prems(3) by (auto simp: eff2 L2_def)
  qed
  have ends': "\<forall>c \<in> set (leading_firings limit (lock_end ?st2) (calls_of ts)).
      \<forall>task' \<in> set ts. fst c < fst task' \<longrightarrow> fst task' \<noteq> fst c + limit"
    using Cons.prems(4) unfolding split eff2 by simp
  have "t_calls (throttle_tasks limit (task # ts) st)
      = t_calls ?st2 @ leading_firings limit (lock_end ?st2) (calls_of ts)"
    using Cons.IH [OF eff2(1) sorted lock' ends'] by (simp add: task)
  then show ?case
    unfolding split eff2 by simp
qed

text \<open>
  C4. The delay \<open>limit\<close> is one that the hosts keep, below \<open>2^31\<close>. The first call
  of a throttled function invokes \<open>func\<close> at once and locks it, with one timer due
  \<open>limit\<close> later. A call that arrives under the lock changes nothing
  (\<open>func\<close> is not invoked, and nothing is scheduled for the call). After an invocation
  at \<open>tm\<close>, a later task finds the lock on exactly when it comes before \<open>tm + limit\<close>.
  In every run whose tasks come at growing times and never at the moment a lock ends, the
  invocations of \<open>func\<close> are those of the calls that found no lock, each at the time of
  its call. For calls at 0, 10 and 60 with \<open>limit = 50\<close>, \<open>func\<close> is invoked at 0 and
  at 60, and not at 10; for two calls of one task with \<open>limit = 0\<close>, \<open>func\<close> is
  invoked for the first only.
\<close>

theorem throttle_leading_call:
  "(limit < 2 ^ 31 \<longrightarrow>
      throttle_executedFunction limit tm (args :: 'a) throttle =
        \<lparr>inThrottle = True,
         t_timers = \<lparr>pending = [\<lparr>handle = 1, due = tm + limit, callback = ()\<rparr>], next_handle = 2\<rparr>,
         t_calls = [(tm, args)]\<rparr>)
   \<and> (inThrottle st \<longrightarrow> throttle_executedFunction limit tm args st = st)
   \<and> (limit < 2 ^ 31 \<and> \<not> inThrottle (throttle_run_timers tm (throttle_tasks limit ts throttle))
        \<and> tm < tm' \<and> tm' \<noteq> tm + limit \<longrightarrow>
        inThrottle (throttle_run_timers tm'
            (throttle_executedFunction limit tm args
               (throttle_run_timers tm (throttle_tasks limit ts throttle))))
        = (tm' < tm + limit))
   \<and> (limit < 2 ^ 31 \<and> clear_of_locks limit ts \<longrightarrow>
        t_calls (throttle_run_timers T (throttle_tasks limit ts throttle))
        = leading_firings limit None (calls_of ts))
   \<and> t_calls (throttle_run_timers T
        (throttle_tasks 50 [(0, [a :: 'a]), (10, [b]), (60, [c])] throttle))
     = [(0, a), (60, c)]
   \<and> t_calls (throttle_run_timers T (throttle_tasks 0 [(0, [a, b])] throttle)) = [(0, a)]"
proof -
  let ?st = "throttle_run_timers tm (throttle_tasks limit ts throttle)"
  have inv: "throttle_inv ?st"
    by (intro throttle_run_timers_inv throttle_tasks_inv throttle_inv_init)
  have first: "throttle_executedFunction limit tm args throttle =
     \<lparr>inThrottle = True,
      t_timers = \<lparr>pending = [\<lparr>handle = 1, due = tm + limit, callback = ()\<rparr>], next_handle = 2\<rparr>,
      t_calls = [(tm, args)]\<rparr>"
    by (simp add: throttle_executedFunction_def throttle_def setTimeout_def)
  have run: "t_calls (throttle_run_timers T (throttle_tasks limit ts throttle))
      = leading_firings limit None (calls_of ts)"
    if "clear_of_locks limit ts" for limit T and ts :: "(nat \<times> 'a list) list"
  proof -
    have none: "lock_end (throttle :: 'a throttled) = None" "t_calls (throttle :: 'a throttled) = []"
      by (simp_all add: throttle_def lock_end_def)
    have "t_calls (throttle_tasks limit ts throttle)
        = t_calls (throttle :: 'a throttled) @ leading_firings limit (lock_end (throttle :: 'a throttled)) (calls_of ts)"
      using that unfolding clear_of_locks_def
      by (intro throttle_tasks_firings throttle_inv_init) (simp_all add: none)
    then show ?thesis
      using throttle_run_timers_effect [OF throttle_tasks_inv [OF throttle_inv_init], of T limit ts]
      by (simp add: none)
  qed
  have unlock: "inThrottle (throttle_run_timers tm' (throttle_executedFunction limit tm args ?st))
      = (tm' < tm + limit)"
    if "\<not> inThrottle ?st"
    using that throttle_run_timers_effect [OF throttle_executedFunction_inv [OF inv], of tm' limit tm args]
    by (auto simp: throttle_executedFunction_unlocked [OF inv] lock_end_def)
  have ex: "t_calls (throttle_run_timers T (throttle_tasks 50 [(0, [a]), (10, [b]), (60, [c])] throttle))
      = [(0, a), (60, c)]"
    by (subst run) (simp_all add: clear_of_locks_def calls_of_def)
  have ex0: "t_calls (throttle_run_timers T (throttle_tasks 0 [(0, [a, b])] throttle)) = [(0, a)]"
    by (subst run) (simp_all add: clear_of_locks_def calls_of_def)
  have locked: "inThrottle st \<longrightarrow> throttle_executedFunction limit tm args st = st"
    by (simp add: throttle_executedFunction_locked)
  from first locked unlock run [of limit ts T] ex ex0 show ?thesis
    by blast
qed

theorem throttle_leading_call_witness:
  "(50 :: nat) < 2 ^ 31
   \<and> inThrottle (throttle_executedFunction 50 0 ''a'' throttle)
   \<and> inThrottle (throttle_run_timers 10 (throttle_tasks 50 [(0, [''a''])] throttle))
   \<and> throttle_executedFunction 50 10 ''b'' (throttle_run_timers 10 (throttle_tasks 50 [(0, [''a''])] throttle))
     = throttle_run_timers 10 (throttle_tasks 50 [(0, [''a''])] throttle)
   \<and> \<not> inThrottle (throttle_run_timers 60 (throttle_tasks 50 [(0, [''a''])] throttle))
   \<and> (60 :: nat) < 70 \<and> (70 :: nat) \<noteq> 60 + 50
   \<and> inThrottle (throttle_run_timers 70
         (throttle_executedFunction 50 60 ''c''
            (throttle_run_timers 60 (throttle_tasks 50 [(0, [''a''])] throttle))))
   \<and> clear_of_locks 50 [(0, [''a'', ''b'']), (10, [''c'']), (60, [''d'', ''e''])]
   \<and> t_calls (throttle_run_timers 200
         (throttle_tasks 50 [(0, [''a'', ''b'']), (10, [''c'']), (60, [''d'', ''e''])] throttle))
     = [(0, ''a''), (60, ''d'')]"
proof -
  have 0: "(50 :: nat) < 2 ^ 31" "(60 :: nat) < 70" "(70 :: nat) \<noteq> 60 + 50"
    by simp_all
  have 1: "inThrottle (throttle_run_timers 10 (throttle_tasks 50 [(0, [''a''])] throttle))"
    and 2: "\<not> inThrottle (throttle_run_timers 60 (throttle_tasks 50 [(0, [''a''])] throttle))"
    by code_simp+
  have 3: "clear_of_locks 50 [(0 :: nat, [''a'', ''b'']), (10, [''c'']), (60, [''d'', ''e''])]"
    by (simp add: clear_of_locks_def calls_of_def)
  have 4: "leading_firings 50 None (calls_of [(0, [''a'', ''b'']), (10, [''c'']), (60, [''d'', ''e''])])
      = [(0, ''a''), (60, ''d'')]"
    by (simp add: calls_of_def)
  have 5: "inThrottle (throttle_executedFunction 50 0 ''a'' throttle)"
    using 0 throttle_leading_call [of 50 0 "''a''" throttle "[]" 0 0 "''a''" "''b''" "''c''"]
    by simp
  have 6: "throttle_executedFunction 50 10 ''b'' (throttle_run_timers 10 (throttle_tasks 50 [(0, [''a''])] throttle))
     = throttle_run_timers 10 (throttle_tasks 50 [(0, [''a''])] throttle)"
    using 1 throttle_leading_call [of 50 10 "''b''"
        "throttle_run_timers 10 (throttle_tasks 50 [(0, [''a''])] throttle)"
        "[]" 0 0 "''a''" "''b''" "''c''"]
    by blast
  have 7: "inThrottle (throttle_run_timers 70
         (throttle_executedFunction 50 60 ''c''
            (throttle_run_timers 60 (throttle_tasks 50 [(0, [''a''])] throttle))))"
    using 0 2 throttle_leading_call [of 50 60 "''c''" throttle "[(0, [''a''])]" 70 0 "''a''" "''b''" "''c''"]
    by simp
  have 8: "t_calls (throttle_run_timers 200
         (throttle_tasks 50 [(0, [''a'', ''b'']), (10, [''c'']), (60, [''d'', ''e''])] throttle))
     = [(0, ''a''), (60, ''d'')]"
    using 0 3 4 throttle_leading_call [of 50 60 "''c''" throttle
        "[(0, [''a'', ''b'']), (10, [''c'']), (60, [''d'', ''e''])]" 70 200 "''a''" "''b''" "''c''"]
    by simp
  from 0 1 2 3 5 6 7 8 show ?thesis
    by blast
qed

section \<open>Properties of the JSON numbers\<close>

lemma takeWhile_digits_append:
  "list_all is_digit ds \<Longrightarrow> no_digit_head r \<Longrightarrow> takeWhile is_digit (ds @ r) = ds"
  by (induction ds) (auto simp: no_digit_head_def split: list.splits)

lemma dropWhile_digits_append:
  "list_all is_digit ds \<Longrightarrow> no_digit_head r \<Longrightarrow> dropWhile is_digit (ds @ r) = r"
  by (induction ds) (auto simp: no_digit_head_def split: list.splits)

lemma radix_value_append:
  "radix_value R (xs @ ys) = radix_value R xs * R ^ length ys + radix_value R ys"
proof (induction ys rule: rev_induct)
  case Nil
  then show ?case by (simp add: radix_value_def)
next
  case (snoc y ys)
  have "radix_value R (xs @ ys @ [y]) = R * radix_value R (xs @ ys) + alnum_value y"
    using radix_value_snoc [of R "xs @ ys" y] by simp
  then show ?case
    by (simp add: snoc radix_value_snoc algebra_simps)
qed

lemma radix_value_zeros: "radix_value R (replicate n (CHR ''0'')) = 0"
  by (induction n) (simp_all add: radix_value_def alnum_value_def)

lemma radix_value_Nil: "radix_value R [] = 0"
  by (simp add: radix_value_def)

lemma is_digit_zero: "is_digit (CHR ''0'')"
  by (simp add: is_digit_def)

lemma digit_char_zero: "d < 10 \<Longrightarrow> digit_char d = CHR ''0'' \<longleftrightarrow> d = 0"
proof
  assume d: "d < 10" and "digit_char d = CHR ''0''"
  then have "alnum_value (digit_char d) = alnum_value (CHR ''0'')"
    by simp
  then show "d = 0"
    using d by (simp add: alnum_value_digit_char) (simp add: alnum_value_def)
next
  assume "d = 0"
  moreover have "digit_char 0 = CHR ''0''"
    by code_simp
  ultimately show "digit_char d = CHR ''0''"
    by simp
qed

lemma hd_show_nat: "0 < m \<Longrightarrow> hd (show_nat m) \<noteq> CHR ''0''"
proof (induction m rule: show_nat.induct)
  case (1 n)
  show ?case
  proof (cases "n < 10")
    case True
    with 1 show ?thesis
      by (subst show_nat.simps) (simp add: digit_char_zero)
  next
    case False
    then have "0 < n div 10"
      by simp
    with 1 False have "hd (show_nat (n div 10)) \<noteq> CHR ''0''"
      by simp
    with False show ?thesis
      by (subst show_nat.simps) (simp add: show_nat_nonempty)
  qed
qed

lemma normalize_canonical: "m \<noteq> 0 \<Longrightarrow> m mod 10 \<noteq> 0 \<Longrightarrow> normalize m e = (m, e)"
  by (subst normalize.simps) simp

lemma normalize_zero: "normalize 0 e = (0, 0)"
  by (subst normalize.simps) simp

lemma normalize_times_ten: "m \<noteq> 0 \<Longrightarrow> normalize (m * 10) e = normalize m (e + 1)"
  by (subst normalize.simps) simp

lemma normalize_power:
  "m \<noteq> 0 \<Longrightarrow> normalize (m * 10 ^ j) e = normalize m (e + int j)"
proof (induction j arbitrary: e)
  case 0
  then show ?case by simp
next
  case (Suc j)
  have "m * 10 ^ Suc j = (m * 10 ^ j) * 10"
    by simp
  then have "normalize (m * 10 ^ Suc j) e = normalize ((m * 10 ^ j) * 10) e"
    by (simp only:)
  also have "\<dots> = normalize (m * 10 ^ j) (e + 1)"
    using Suc.prems by (intro normalize_times_ten) simp
  also have "\<dots> = normalize m (e + 1 + int j)"
    using Suc by simp
  also have "e + 1 + int j = e + int (Suc j)"
    by simp
  finally show ?case .
qed

lemma normalize_negate: "normalize (- m) e = (case normalize m e of (m', e') \<Rightarrow> (- m', e'))"
proof (induction m e rule: normalize.induct)
  case (1 m e)
  show ?case
  proof (cases "m = 0")
    case True
    then show ?thesis by (simp add: normalize_zero)
  next
    case nz: False
    show ?thesis
    proof (cases "m mod 10 = 0")
      case True
      then have d: "(- m) mod 10 = 0" "(- m) div 10 = - (m div 10)"
        by (auto simp: zmod_zminus1_eq_if zdiv_zminus1_eq_if)
      have "normalize (- m) e = normalize (- (m div 10)) (e + 1)"
        using nz d by (subst normalize.simps) simp
      also have "\<dots> = (case normalize (m div 10) (e + 1) of (m', e') \<Rightarrow> (- m', e'))"
        using 1 nz True by simp
      also have "normalize (m div 10) (e + 1) = normalize m e"
        using nz True by (subst (2) normalize.simps) simp
      finally show ?thesis .
    next
      case False
      then have "(- m) mod 10 \<noteq> 0"
        by (auto simp: zmod_zminus1_eq_if)
      with nz False show ?thesis
        by (simp add: normalize_canonical)
    qed
  qed
qed

lemma parse_exponent_none: "number_end r \<Longrightarrow> parse_exponent r = Some (0, r)"
  by (auto simp: parse_exponent_def number_end_def split: list.splits)

lemma parse_exponent_plus:
  assumes "no_digit_head r"
  shows "parse_exponent (''e+'' @ show_nat x @ r) = Some (int x, r)"
  using assms
  by (simp add: parse_exponent_def takeWhile_digits_append dropWhile_digits_append
      show_nat_digits show_nat_nonempty radix_value_show_nat)

lemma parse_exponent_minus:
  assumes "no_digit_head r"
  shows "parse_exponent (''e-'' @ show_nat x @ r) = Some (- int x, r)"
  using assms
  by (simp add: parse_exponent_def takeWhile_digits_append dropWhile_digits_append
      show_nat_digits show_nat_nonempty radix_value_show_nat)

lemma number_end_no_digit: "number_end r \<Longrightarrow> no_digit_head r"
  by (auto simp: number_end_def no_digit_head_def split: list.splits)

text \<open>
  The reading of a number text that is made of an integer part, a fraction and an exponent
  part.
\<close>

lemma parse_number_parts:
  assumes ip: "ip \<noteq> []" "list_all is_digit ip" "length ip = 1 \<or> hd ip \<noteq> CHR ''0''"
    and fp: "list_all is_digit fp"
    and ft: "ft = (if fp = [] then [] else CHR ''.'' # fp)"
    and et: "parse_exponent (et @ r) = Some (ex, r)"
      "no_digit_head (et @ r)" "fp = [] \<longrightarrow> et @ r = [] \<or> hd (et @ r) \<noteq> CHR ''.''"
  shows "parse_number (ip @ ft @ et @ r)
       = Some (case normalize (int (radix_value 10 (ip @ fp))) (ex - int (length fp)) of
                 (m, e) \<Rightarrow> VNumber m e, r)"
proof -
  define t where "t = ip @ ft @ et @ r"
  have "is_digit (hd ip)"
    using ip by (cases ip) auto
  then have "hd ip \<noteq> CHR ''-''"
    by (auto simp: is_digit_def)
  then have neg: "(t \<noteq> [] \<and> hd t = CHR ''-'') = False"
    using ip(1) by (simp add: t_def)
  have nd: "no_digit_head (ft @ et @ r)"
    using et(2) by (auto simp: ft no_digit_head_def is_digit_def)
  have 1: "takeWhile is_digit t = ip" "dropWhile is_digit t = ft @ et @ r"
    using ip(2) nd by (simp_all add: t_def takeWhile_digits_append dropWhile_digits_append)
  have lead: "(ip = [] \<or> 1 < length ip \<and> hd ip = CHR ''0'' \<or> P \<and> Q) = (P \<and> Q)" for P Q
    using ip(1,3) by auto
  have res: "(case Some (ex, r) of None \<Rightarrow> None
      | Some (ex, s) \<Rightarrow>
          (let M = int (radix_value 10 (ip @ fp));
               (m, e) = normalize (if False then - M else M) (ex - int (length fp))
           in Some (VNumber m e, s)))
      = Some (case normalize (int (radix_value 10 (ip @ fp))) (ex - int (length fp)) of
                 (m, e) \<Rightarrow> VNumber m e, r)"
    by (simp add: Let_def split: prod.splits)
  show ?thesis
  proof (cases "fp = []")
    case True
    then have f: "ft @ et @ r = et @ r"
      by (simp add: ft)
    have pt: "(et @ r \<noteq> [] \<and> hd (et @ r) = CHR ''.'') = False"
      using et(3) True by auto
    have "parse_number t = (case parse_exponent (et @ r) of None \<Rightarrow> None
      | Some (ex, s) \<Rightarrow>
          (let M = int (radix_value 10 (ip @ []));
               (m, e) = normalize (if False then - M else M) (ex - int (length ([] :: string)))
           in Some (VNumber m e, s)))"
      unfolding parse_number_def Let_def neg if_False 1 f pt lead
      by (simp only: simp_thms if_False)
    then show ?thesis
      using res by (simp only: et(1) True t_def [symmetric])
  next
    case False
    then have f: "ft @ et @ r = CHR ''.'' # fp @ et @ r"
      by (simp add: ft)
    have pt: "(CHR ''.'' # fp @ et @ r \<noteq> [] \<and> hd (CHR ''.'' # fp @ et @ r) = CHR ''.'') = True"
      by simp
    have 2: "takeWhile is_digit (fp @ et @ r) = fp" "dropWhile is_digit (fp @ et @ r) = et @ r"
      using fp et(2) by (simp_all add: takeWhile_digits_append dropWhile_digits_append)
    have "parse_number t = (case parse_exponent (et @ r) of None \<Rightarrow> None
      | Some (ex, s) \<Rightarrow>
          (let M = int (radix_value 10 (ip @ fp));
               (m, e) = normalize (if False then - M else M) (ex - int (length fp))
           in Some (VNumber m e, s)))"
      unfolding parse_number_def Let_def neg if_False 1 f pt lead if_True list.sel 2
      using False by simp
    then show ?thesis
      using res by (simp only: et(1) t_def [symmetric])
  qed
qed

lemma parse_number_minus:
  assumes "parse_number t = Some (VNumber m e, r)" "t \<noteq> []" "is_digit (hd t)"
  shows "parse_number (CHR ''-'' # t) = Some (VNumber (- m) e, r)"
proof -
  define ip where "ip = takeWhile is_digit t"
  define s2 where "s2 = dropWhile is_digit t"
  define point where "point = (s2 \<noteq> [] \<and> hd s2 = CHR ''.'')"
  define fp where "fp = (if point then takeWhile is_digit (tl s2) else [])"
  define s3 where "s3 = (if point then dropWhile is_digit (tl s2) else s2)"
  define bad where "bad = (ip = [] \<or> (1 < length ip \<and> hd ip = CHR ''0'') \<or> (point \<and> fp = []))"
  define M where "M = int (radix_value 10 (ip @ fp))"
  have "hd t \<noteq> CHR ''-''"
    using assms(3) by (auto simp: is_digit_def)
  then have neg: "(t \<noteq> [] \<and> hd t = CHR ''-'') = False"
    by simp
  have pos: "parse_number t =
      (if bad then None
       else case parse_exponent s3 of
              None \<Rightarrow> None
            | Some (ex, s) \<Rightarrow>
                (let (m, e) = normalize (if False then - M else M) (ex - int (length fp))
                 in Some (VNumber m e, s)))"
    unfolding parse_number_def Let_def neg if_False
    unfolding ip_def [symmetric] s2_def [symmetric]
    unfolding point_def [symmetric]
    unfolding fp_def [symmetric] s3_def [symmetric]
    unfolding bad_def [symmetric] M_def [symmetric] ..
  have neg': "(CHR ''-'' # t \<noteq> [] \<and> hd (CHR ''-'' # t) = CHR ''-'') = True"
    by simp
  have tl': "tl (CHR ''-'' # t) = t"
    by simp
  have min: "parse_number (CHR ''-'' # t) =
      (if bad then None
       else case parse_exponent s3 of
              None \<Rightarrow> None
            | Some (ex, s) \<Rightarrow>
                (let (m, e) = normalize (if True then - M else M) (ex - int (length fp))
                 in Some (VNumber m e, s)))"
    unfolding parse_number_def Let_def neg' if_True
    unfolding tl'
    unfolding ip_def [symmetric] s2_def [symmetric]
    unfolding point_def [symmetric]
    unfolding fp_def [symmetric] s3_def [symmetric]
    unfolding bad_def [symmetric] M_def [symmetric] ..
  from assms(1) show ?thesis
    unfolding pos min
    by (auto simp: normalize_negate split: if_splits option.splits prod.splits)
qed

lemma hd_take: "0 < n \<Longrightarrow> hd (take n xs) = hd xs"
  by (cases xs; cases n) simp_all

lemma parse_number_positive:
  assumes m: "0 < m" "m mod 10 \<noteq> 0" and r: "number_end r"
  shows "parse_number (positive_to_string m e @ r) = Some (VNumber (int m) e, r)"
proof -
  define s where "s = show_nat m"
  define k where "k = int (length s)"
  define n where "n = k + e"
  have s: "s \<noteq> []" "list_all is_digit s" "hd s \<noteq> CHR ''0''" "radix_value 10 s = m"
    using m(1) by (simp_all add: s_def show_nat_nonempty show_nat_digits hd_show_nat
        radix_value_show_nat)
  have k: "0 < k"
    using s(1) by (simp add: k_def)
  have "int m mod 10 = int (m mod 10)"
    by (simp add: zmod_int)
  then have mi: "int m \<noteq> 0" "int m mod 10 \<noteq> 0"
    using m by simp_all
  have r0: "parse_exponent ([] @ r) = Some (0, r)" "no_digit_head ([] @ r)"
    "[] @ r = [] \<or> hd ([] @ r) \<noteq> CHR ''.''"
    using r by (auto simp: parse_exponent_none number_end_no_digit number_end_def
        split: list.splits)
  have pts: "positive_to_string m e =
      (if k \<le> n \<and> n \<le> 21 then s @ replicate (nat (n - k)) (CHR ''0'')
       else if 0 < n \<and> n \<le> 21 then take (nat n) s @ ''.'' @ drop (nat n) s
       else if - 6 < n \<and> n \<le> 0 then ''0.'' @ replicate (nat (- n)) (CHR ''0'') @ s
       else (if k = 1 then s else hd s # ''.'' @ tl s)
            @ ''e'' @ (if 0 \<le> n - 1 then ''+'' else ''-'') @ show_nat (nat \<bar>n - 1\<bar>))"
    unfolding positive_to_string_def Let_def s_def k_def n_def ..
  consider (int) "k \<le> n" "n \<le> 21"
    | (point) "n < k" "0 < n" "n \<le> 21"
    | (small) "n < k" "- 6 < n" "n \<le> 0"
    | (exp) "\<not> (k \<le> n \<and> n \<le> 21)" "\<not> (0 < n \<and> n \<le> 21)" "\<not> (- 6 < n \<and> n \<le> 0)"
    using k by linarith
  then show ?thesis
  proof cases
    case int
    define j where "j = nat (n - k)"
    have e: "e = int j"
      using int by (simp add: j_def n_def)
    have tx: "positive_to_string m e @ r = (s @ replicate j (CHR ''0'')) @ [] @ [] @ r"
      using int by (simp add: pts j_def)
    have "parse_number ((s @ replicate j (CHR ''0'')) @ [] @ [] @ r)
        = Some (case normalize (int (radix_value 10 ((s @ replicate j (CHR ''0'')) @ [])))
                       (0 - int (length ([] :: string))) of (m, e) \<Rightarrow> VNumber m e, r)"
      using s r0 by (intro parse_number_parts) (auto simp: list_all_iff is_digit_zero)
    also have "int (radix_value 10 ((s @ replicate j (CHR ''0'')) @ [])) = int m * 10 ^ j"
      by (simp add: radix_value_append radix_value_zeros s(4))
    also have "normalize (int m * 10 ^ j) (0 - int (length ([] :: string))) = (int m, e)"
      using mi by (simp add: normalize_power normalize_canonical e)
    finally show ?thesis
      by (simp add: tx)
  next
    case point
    define i where "i = nat n"
    have i: "0 < i" "i < length s"
      using point by (simp_all add: i_def k_def)
    have tx: "positive_to_string m e @ r = take i s @ (CHR ''.'' # drop i s) @ [] @ r"
      using point by (simp add: pts i_def)
    have e: "e = - int (length (drop i s))"
      using point i by (simp add: n_def k_def i_def)
    have "parse_number (take i s @ (CHR ''.'' # drop i s) @ [] @ r)
        = Some (case normalize (int (radix_value 10 (take i s @ drop i s)))
                       (0 - int (length (drop i s))) of (m, e) \<Rightarrow> VNumber m e, r)"
      using s r0 i
      by (intro parse_number_parts)
         (auto simp: list_all_iff hd_take dest: in_set_takeD in_set_dropD)
    also have "normalize (int (radix_value 10 (take i s @ drop i s))) (0 - int (length (drop i s)))
        = (int m, e)"
      using mi by (simp add: s(4) normalize_canonical e)
    finally show ?thesis
      by (simp add: tx)
  next
    case small
    define j where "j = nat (- n)"
    have tx: "positive_to_string m e @ r
        = ''0'' @ (CHR ''.'' # replicate j (CHR ''0'') @ s) @ [] @ r"
      using small by (simp add: pts j_def)
    have e: "e = - int (length (replicate j (CHR ''0'') @ s))"
      using small by (simp add: n_def k_def j_def)
    have "parse_number (''0'' @ (CHR ''.'' # replicate j (CHR ''0'') @ s) @ [] @ r)
        = Some (case normalize (int (radix_value 10 (''0'' @ replicate j (CHR ''0'') @ s)))
                       (0 - int (length (replicate j (CHR ''0'') @ s))) of
                  (m, e) \<Rightarrow> VNumber m e, r)"
      using s r0
      by (intro parse_number_parts) (auto simp: list_all_iff is_digit_zero)
    also have "radix_value 10 (''0'' @ replicate j (CHR ''0'') @ s) = m"
      using radix_value_append [of 10 "''0'' @ replicate j (CHR ''0'')" s]
        radix_value_zeros [of 10 "Suc j"]
      by (simp add: s(4))
    also have "normalize (int m) (0 - int (length (replicate j (CHR ''0'') @ s))) = (int m, e)"
      using mi by (simp add: normalize_canonical e)
    finally show ?thesis
      by (simp add: tx)
  next
    case exp
    define x where "x = nat \<bar>n - 1\<bar>"
    define et where "et = ''e'' @ (if 0 \<le> n - 1 then ''+'' else ''-'') @ show_nat x"
    have nd: "no_digit_head r"
      using r by (rule number_end_no_digit)
    have pe: "parse_exponent (et @ r) = Some (n - 1, r)"
      using parse_exponent_plus [OF nd, of x] parse_exponent_minus [OF nd, of x]
      by (auto simp: et_def x_def)
    have eh: "no_digit_head (et @ r)" "et @ r = [] \<or> hd (et @ r) \<noteq> CHR ''.''"
      by (simp_all add: et_def no_digit_head_def is_digit_def)
    have pe': "positive_to_string m e = (if k = 1 then s else hd s # ''.'' @ tl s) @ et"
      unfolding pts et_def x_def using exp by (simp only: if_False)
    show ?thesis
    proof (cases "k = 1")
      case True
      have tx: "positive_to_string m e @ r = s @ [] @ et @ r"
        using True by (simp add: pe')
      have e: "e = n - 1"
        using True by (simp add: n_def)
      have "parse_number (s @ [] @ et @ r)
          = Some (case normalize (int (radix_value 10 (s @ [])))
                         (n - 1 - int (length ([] :: string))) of (m, e) \<Rightarrow> VNumber m e, r)"
        using s pe eh True by (intro parse_number_parts) (auto simp: k_def)
      also have "normalize (int (radix_value 10 (s @ []))) (n - 1 - int (length ([] :: string)))
          = (int m, e)"
        using mi by (simp add: s(4) normalize_canonical e)
      finally show ?thesis
        by (simp add: tx)
    next
      case False
      then have tl: "tl s \<noteq> []" "s = hd s # tl s"
        using k s(1) by (cases s; cases "tl s"; simp add: k_def)+
      have tx: "positive_to_string m e @ r = [hd s] @ (CHR ''.'' # tl s) @ et @ r"
        using False by (simp add: pe')
      have "length s = Suc (length (tl s))"
        using s(1) by (cases s) simp_all
      then have e: "e = n - 1 - int (length (tl s))"
        by (simp add: n_def k_def)
      have "parse_number ([hd s] @ (CHR ''.'' # tl s) @ et @ r)
          = Some (case normalize (int (radix_value 10 ([hd s] @ tl s)))
                         (n - 1 - int (length (tl s))) of (m, e) \<Rightarrow> VNumber m e, r)"
        using s pe eh tl
        by (intro parse_number_parts) (auto simp: list_all_iff dest: list.set_sel)
      also have "[hd s] @ tl s = s"
        using tl(2) by simp
      also have "normalize (int (radix_value 10 s)) (n - 1 - int (length (tl s))) = (int m, e)"
        using mi by (simp add: s(4) normalize_canonical e)
      finally show ?thesis
        by (simp add: tx)
    qed
  qed
qed

lemma positive_to_string_head:
  assumes "0 < m"
  shows "positive_to_string m e \<noteq> [] \<and> is_digit (hd (positive_to_string m e))"
proof -
  have s: "show_nat m \<noteq> []" "is_digit (hd (show_nat m))"
    using show_nat_nonempty [of m] show_nat_digits [of m]
    by (simp, cases "show_nat m", auto)
  then show ?thesis
    unfolding positive_to_string_def Let_def
    by (auto simp: hd_append hd_take is_digit_zero)
qed

lemma parse_number_to_string:
  assumes "canonical m e" "number_end r"
  shows "parse_number (number_to_string m e @ r) = Some (VNumber m e, r)"
proof -
  consider (zero) "m = 0" | (pos) "0 < m" | (neg) "m < 0"
    by linarith
  then show ?thesis
  proof cases
    case zero
    have r0: "parse_exponent ([] @ r) = Some (0, r)" "no_digit_head ([] @ r)"
      "[] @ r = [] \<or> hd ([] @ r) \<noteq> CHR ''.''"
      using assms(2) by (auto simp: parse_exponent_none number_end_no_digit number_end_def
          split: list.splits)
    have "parse_number (''0'' @ [] @ [] @ r)
        = Some (case normalize (int (radix_value 10 (''0'' @ []))) (0 - int (length ([] :: string))) of
                  (m, e) \<Rightarrow> VNumber m e, r)"
      using r0 by (intro parse_number_parts) (auto simp: is_digit_zero)
    also have "radix_value 10 (''0'' @ []) = 0"
      using radix_value_zeros [of 10 1] by simp
    finally show ?thesis
      using assms(1) zero by (simp add: number_to_string_def normalize_zero canonical_def)
  next
    case pos
    then have "int (nat m mod 10) = m mod 10"
      by (simp add: zmod_int)
    then have "nat m mod 10 \<noteq> 0"
      using assms(1) pos by (auto simp: canonical_def)
    with pos show ?thesis
      using parse_number_positive [of "nat m" r e] assms(2)
      by (simp add: number_to_string_def)
  next
    case neg
    then have "int (nat (- m) mod 10) = (- m) mod 10"
      by (simp add: zmod_int)
    moreover have "(- m) mod 10 \<noteq> 0"
      using assms(1) neg by (auto simp: canonical_def zmod_zminus1_eq_if)
    ultimately have c: "0 < nat (- m)" "nat (- m) mod 10 \<noteq> 0"
      using neg by auto
    have p: "parse_number (positive_to_string (nat (- m)) e @ r) = Some (VNumber (int (nat (- m))) e, r)"
      using c assms(2) by (rule parse_number_positive)
    have h: "positive_to_string (nat (- m)) e @ r \<noteq> []"
      "is_digit (hd (positive_to_string (nat (- m)) e @ r))"
      using positive_to_string_head [OF c(1), of e] by (simp_all add: hd_append)
    show ?thesis
      using parse_number_minus [OF p h] neg by (simp add: number_to_string_def)
  qed
qed

section \<open>Properties of the JSON strings\<close>

lemma alnum_value_hex_digit: "d < 16 \<Longrightarrow> alnum_value (hex_digit d) = d"
  by (auto simp: alnum_value_def hex_digit_def Let_def)

lemma prepend_Some: "prepend c (Some (s, r)) = Some (c # s, r)"
  by (simp add: prepend_def)

lemma char_of_quote: "char_of (34 :: nat) = CHR 0x22" "char_of (92 :: nat) = CHR 0x5C"
  by code_simp+

lemma parse_chars_escape: "parse_chars (json_escape c @ t) = prepend c (parse_chars t)"
proof -
  define n where "n = (of_char c :: nat)"
  have c: "c = char_of n"
    by (simp add: n_def)
  consider (short) "n \<in> {8, 9, 10, 12, 13, 34, 92}"
    | (ctrl) "n < 32" "n \<notin> {8, 9, 10, 12, 13, 34, 92}"
    | (plain) "32 \<le> n" "n \<notin> {8, 9, 10, 12, 13, 34, 92}"
    by linarith
  then show ?thesis
  proof cases
    case short
    then consider "c = char_of (8 :: nat)" | "c = char_of (9 :: nat)" | "c = char_of (10 :: nat)"
      | "c = char_of (12 :: nat)" | "c = char_of (13 :: nat)" | "c = CHR 0x22" | "c = CHR 0x5C"
      unfolding c using char_of_quote by auto
    then show ?thesis
      by cases (simp_all add: json_escape_def unescape_def)
  next
    case ctrl
    have esc: "json_escape c = [CHR 0x5C, CHR ''u'', CHR ''0'', CHR ''0'',
        hex_digit (n div 16), hex_digit (n mod 16)]"
      using ctrl by (simp add: json_escape_def n_def [symmetric])
    have hv: "alnum_value (hex_digit (n div 16)) = n div 16"
      "alnum_value (hex_digit (n mod 16)) = n mod 16"
      using ctrl by (simp_all add: alnum_value_hex_digit)
    have z: "alnum_value (CHR ''0'') = 0"
      by (simp add: alnum_value_def)
    have code: "radix_value 16 [CHR ''0'', CHR ''0'', hex_digit (n div 16), hex_digit (n mod 16)] = n"
      by (simp add: radix_value_def hv z)
    have "n div 16 < 16"
      using ctrl(1) by simp
    then show ?thesis
      using ctrl(1) by (simp add: esc hv z code Let_def c [symmetric])
  next
    case plain
    then have "json_escape c = [c]"
      by (auto simp: json_escape_def n_def [symmetric])
    moreover have "c \<noteq> CHR 0x22" "c \<noteq> CHR 0x5C"
      using plain(2) by (auto simp: n_def)
    ultimately show ?thesis
      using plain(1) by (simp add: n_def [symmetric])
  qed
qed

lemma parse_chars_quoted:
  "parse_chars (concat (map json_escape s) @ CHR 0x22 # r) = Some (s, r)"
  by (induction s) (simp_all add: parse_chars_escape prepend_Some)

lemma parse_chars_length:
  "parse_chars s = Some (t, r) \<Longrightarrow> length t + length r < length s"
proof (induction s arbitrary: t r rule: parse_chars.induct)
  case 1
  then show ?case by simp
next
  case (2 c r')
  then show ?case
    by (auto simp: prepend_def Let_def split: if_splits list.splits option.splits)
       fastforce+
qed

section \<open>Properties of the objects\<close>

lemma insert_index_last:
  assumes "\<forall>x \<in> set kvs. \<exists>m. array_index (fst x) = Some m \<and> m < n"
  shows "insert_index n kv kvs = kvs @ [kv]"
  using assms by (induction kvs) auto

lemma obj_set_append:
  assumes "distinct (map fst (acc @ [(k, v)]))" "sorted_wrt key_before (map fst (acc @ [(k, v)]))"
  shows "obj_set acc k v = acc @ [(k, v)]"
proof -
  have new: "k \<notin> fst ` set acc"
    using assms(1) by auto
  have before: "\<forall>x \<in> set acc. key_before (fst x) k"
    using assms(2) by (auto simp: sorted_wrt_append)
  show ?thesis
  proof (cases "array_index k")
    case None
    with new show ?thesis
      by (simp add: obj_set_def)
  next
    case (Some n)
    have "\<forall>x \<in> set acc. \<exists>m. array_index (fst x) = Some m \<and> m < n"
      using before Some by (auto simp: key_before_def split: option.splits)
    then have "insert_index n (k, v) acc = acc @ [(k, v)]"
      by (rule insert_index_last)
    with new Some show ?thesis
      by (simp add: obj_set_def)
  qed
qed

section \<open>Reading the text of a value\<close>

lemma value_head_not_ws: "value_head c \<Longrightarrow> \<not> json_ws c"
  by (auto simp: value_head_def json_ws_def is_digit_def)

lemma skip_ws_value_head: "value_head c \<Longrightarrow> skip_ws (c # t) = c # t"
  by (simp add: skip_ws_def value_head_not_ws)

lemma skip_ws_delimiter:
  "skip_ws (CHR '','' # t) = CHR '','' # t" "skip_ws (CHR '']'' # t) = CHR '']'' # t"
  "skip_ws (CHR ''}'' # t) = CHR ''}'' # t" "skip_ws (CHR '':'' # t) = CHR '':'' # t"
  "skip_ws (CHR 0x22 # t) = CHR 0x22 # t" "skip_ws [] = []"
  by (simp_all add: skip_ws_def json_ws_def)

lemma delimited_number_end: "delimited r \<Longrightarrow> number_end r"
  by (auto simp: delimited_def number_end_def is_digit_def split: list.splits)

lemma number_to_string_head:
  assumes "number_to_string m e = c # t"
  shows "is_digit c \<or> c = CHR ''-''"
proof (cases "0 < m")
  case True
  then show ?thesis
    using assms positive_to_string_head [of "nat m" e]
    by (auto simp: number_to_string_def)
next
  case False
  then show ?thesis
    using assms by (auto simp: number_to_string_def is_digit_zero split: if_splits)
qed

lemma number_to_string_nonempty: "number_to_string m e \<noteq> []"
  using positive_to_string_head [of "nat m" e]
  by (auto simp: number_to_string_def)

lemma serializable_text: "serializable v \<Longrightarrow> JSON_stringify v = Some (element_text v)"
  by (cases v) (simp_all add: element_text_def)

lemma element_text_head:
  assumes "serializable v"
  shows "\<exists>c t. element_text v = c # t \<and> value_head c"
proof (cases v)
  case (VNumber m e)
  obtain c t where ct: "number_to_string m e = c # t"
    using number_to_string_nonempty [of m e] by (cases "number_to_string m e") auto
  then show ?thesis
    using number_to_string_head [OF ct] by (auto simp: VNumber element_text_def value_head_def)
qed (use assms in \<open>auto simp: element_text_def value_head_def QuoteJSONString_def\<close>)

lemma parse_value_number:
  assumes "is_digit c \<or> c = CHR ''-''"
  shows "parse_value (c # t) = parse_number (c # t)"
proof -
  have "value_head c"
    using assms by (auto simp: value_head_def)
  then have "skip_ws (c # t) = c # t"
    by (rule skip_ws_value_head)
  moreover have "c \<noteq> CHR ''{''" "c \<noteq> CHR ''[''" "c \<noteq> CHR 0x22" "c \<noteq> CHR ''t''"
    "c \<noteq> CHR ''f''" "c \<noteq> CHR ''n''"
    using assms by (auto simp: is_digit_def)
  ultimately show ?thesis
    by (subst parse_value.simps) simp
qed

lemma join_Cons: "xs \<noteq> [] \<Longrightarrow> join sep (x # xs) = x @ sep @ join sep xs"
  by (cases xs) simp_all

lemma parse_elements_more:
  assumes "parse_value s = Some (v, CHR '','' # r')" "length r' < length s"
  shows "parse_elements acc s = parse_elements (acc @ [v]) r'"
  using assms by (subst parse_elements.simps) (simp add: skip_ws_delimiter)

lemma parse_elements_last:
  assumes "parse_value s = Some (v, CHR '']'' # r')"
  shows "parse_elements acc s = Some (VArray (acc @ [v]), r')"
  using assms by (subst parse_elements.simps) (simp add: skip_ws_delimiter)

lemma parse_members_more:
  assumes "parse_chars s1 = Some (k, CHR '':'' # r2)"
    and "parse_value r2 = Some (v, CHR '','' # r4)"
    and "length r4 < Suc (length s1)"
  shows "parse_members acc (CHR 0x22 # s1) = parse_members (obj_set acc k v) r4"
  using assms by (subst parse_members.simps) (simp add: skip_ws_delimiter)

lemma parse_members_last:
  assumes "parse_chars s1 = Some (k, CHR '':'' # r2)"
    and "parse_value r2 = Some (v, CHR ''}'' # r4)"
  shows "parse_members acc (CHR 0x22 # s1) = Some (VObject (obj_set acc k v), r4)"
  using assms by (subst parse_members.simps) (simp add: skip_ws_delimiter)

lemma parse_value_array:
  assumes "value_head c"
  shows "parse_value (CHR ''['' # c # t) = parse_elements [] (c # t)"
proof -
  have "c \<noteq> CHR '']''"
    using assms by (auto simp: value_head_def is_digit_def)
  moreover have "skip_ws (CHR ''['' # c # t) = CHR ''['' # c # t"
    by (simp add: skip_ws_def json_ws_def)
  ultimately show ?thesis
    using skip_ws_value_head [OF assms, of t] by (subst parse_value.simps) simp
qed

lemma parse_value_object:
  "parse_value (CHR ''{'' # CHR 0x22 # t) = parse_members [] (CHR 0x22 # t)"
proof -
  have "skip_ws (CHR ''{'' # CHR 0x22 # t) = CHR ''{'' # CHR 0x22 # t"
    by (simp add: skip_ws_def json_ws_def)
  then show ?thesis
    by (subst parse_value.simps) (simp add: skip_ws_delimiter)
qed

lemma parse_value_empty:
  "parse_value (CHR ''['' # CHR '']'' # r) = Some (VArray [], r)"
  "parse_value (CHR ''{'' # CHR ''}'' # r) = Some (VObject [], r)"
proof -
  have "skip_ws (CHR ''['' # CHR '']'' # r) = CHR ''['' # CHR '']'' # r"
    "skip_ws (CHR ''{'' # CHR ''}'' # r) = CHR ''{'' # CHR ''}'' # r"
    by (simp_all add: skip_ws_def json_ws_def)
  then show "parse_value (CHR ''['' # CHR '']'' # r) = Some (VArray [], r)"
    "parse_value (CHR ''{'' # CHR ''}'' # r) = Some (VObject [], r)"
    by (subst parse_value.simps, simp add: skip_ws_delimiter)+
qed

lemma parse_value_string:
  "parse_value (CHR 0x22 # t) = (case parse_chars t of None \<Rightarrow> None
     | Some (str, r') \<Rightarrow> Some (VString str, r'))"
  by (subst parse_value.simps) (simp add: skip_ws_delimiter)

lemma parse_value_literal:
  "parse_value (''null'' @ r) = Some (VNull, r)"
  "parse_value (''true'' @ r) = Some (VBool True, r)"
  "parse_value (''false'' @ r) = Some (VBool False, r)"
  by (subst parse_value.simps, simp add: skip_ws_def json_ws_def)+

lemma parse_elements_texts:
  assumes "xs \<noteq> []"
    and "\<And>x r. x \<in> set xs \<Longrightarrow> delimited r \<Longrightarrow> parse_value (element_text x @ r) = Some (x, r)"
    and "\<And>x. x \<in> set xs \<Longrightarrow> serializable x"
  shows "parse_elements acc (join '','' (map element_text xs) @ CHR '']'' # r)
       = Some (VArray (acc @ xs), r)"
  using assms
proof (induction xs arbitrary: acc)
  case Nil
  then show ?case by simp
next
  case (Cons x xs)
  show ?case
  proof (cases "xs = []")
    case True
    have "parse_value (element_text x @ CHR '']'' # r) = Some (x, CHR '']'' # r)"
      using Cons.prems(2) [of x "CHR '']'' # r"] by (simp add: delimited_def)
    then show ?thesis
      using True by (simp add: parse_elements_last)
  next
    case False
    let ?rest = "join '','' (map element_text xs) @ CHR '']'' # r"
    have tx: "join '','' (map element_text (x # xs)) @ CHR '']'' # r
        = element_text x @ CHR '','' # ?rest"
      using False by (simp add: join_Cons)
    have pv: "parse_value (element_text x @ CHR '','' # ?rest) = Some (x, CHR '','' # ?rest)"
      using Cons.prems(2) [of x "CHR '','' # ?rest"] by (simp add: delimited_def)
    have IH: "parse_elements (acc @ [x]) ?rest = Some (VArray ((acc @ [x]) @ xs), r)"
      using False Cons.prems(2,3) by (intro Cons.IH) auto
    have "parse_elements acc (element_text x @ CHR '','' # ?rest) = parse_elements (acc @ [x]) ?rest"
      using pv by (rule parse_elements_more) simp
    then show ?thesis
      by (simp only: tx IH) simp
  qed
qed

lemma parse_members_texts:
  assumes "kvs \<noteq> []"
    and "\<And>kv r. kv \<in> set kvs \<Longrightarrow> delimited r
          \<Longrightarrow> parse_value (element_text (snd kv) @ r) = Some (snd kv, r)"
    and "\<And>kv. kv \<in> set kvs \<Longrightarrow> serializable (snd kv)"
    and "distinct (map fst (acc @ kvs))" "sorted_wrt key_before (map fst (acc @ kvs))"
  shows "parse_members acc (join '','' (map member_text kvs) @ CHR ''}'' # r)
       = Some (VObject (acc @ kvs), r)"
  using assms
proof (induction kvs arbitrary: acc)
  case Nil
  then show ?case by simp
next
  case (Cons kv kvs)
  obtain k v where kv: "kv = (k, v)"
    by (cases kv)
  have set: "obj_set acc k v = acc @ [(k, v)]"
    using Cons.prems(4,5) by (intro obj_set_append) (auto simp: kv sorted_wrt_append)
  have mt: "member_text kv @ u
      = CHR 0x22 # (concat (map json_escape k) @ CHR 0x22 # CHR '':'' # element_text v @ u)" for u
    by (simp add: member_text_def QuoteJSONString_def kv)
  have key: "parse_chars (concat (map json_escape k) @ CHR 0x22 # u) = Some (k, u)" for u
    by (rule parse_chars_quoted)
  show ?case
  proof (cases "kvs = []")
    case True
    have pv: "parse_value (element_text v @ CHR ''}'' # r) = Some (v, CHR ''}'' # r)"
      using Cons.prems(2) [of kv "CHR ''}'' # r"] by (simp add: delimited_def kv)
    have "parse_members acc (member_text kv @ CHR ''}'' # r)
        = Some (VObject (obj_set acc k v), r)"
      unfolding mt by (rule parse_members_last [OF key pv])
    then show ?thesis
      using True by (simp add: set kv)
  next
    case False
    let ?rest = "join '','' (map member_text kvs) @ CHR ''}'' # r"
    have tx: "join '','' (map member_text (kv # kvs)) @ CHR ''}'' # r
        = member_text kv @ CHR '','' # ?rest"
      using False by (simp add: join_Cons)
    have pv: "parse_value (element_text v @ CHR '','' # ?rest) = Some (v, CHR '','' # ?rest)"
      using Cons.prems(2) [of kv "CHR '','' # ?rest"] by (simp add: delimited_def kv)
    have IH: "parse_members (acc @ [kv]) ?rest = Some (VObject ((acc @ [kv]) @ kvs), r)"
      using False Cons.prems(2,3,4,5) by (intro Cons.IH) auto
    have step: "parse_members acc (member_text kv @ CHR '','' # ?rest)
        = parse_members (obj_set acc k v) ?rest"
      unfolding mt by (rule parse_members_more [OF key pv]) simp
    have "parse_members acc (join '','' (map member_text (kv # kvs)) @ CHR ''}'' # r)
        = parse_members acc (member_text kv @ CHR '','' # ?rest)"
      by (simp only: tx)
    also have "\<dots> = parse_members (obj_set acc k v) ?rest"
      by (rule step)
    also have "\<dots> = parse_members (acc @ [kv]) ?rest"
      by (simp add: set kv)
    also have "\<dots> = Some (VObject ((acc @ [kv]) @ kvs), r)"
      by (rule IH)
    finally show ?thesis
      by simp
  qed
qed

lemma parse_value_text:
  "serializable v \<Longrightarrow> delimited r \<Longrightarrow> parse_value (element_text v @ r) = Some (v, r)"
proof (induction v arbitrary: r)
  case VUndefined
  then show ?case by simp
next
  case VNull
  show ?case
    using parse_value_literal(1) [of r] by (simp add: element_text_def)
next
  case (VBool b)
  show ?case
    using parse_value_literal(2,3) [of r] by (simp add: element_text_def)
next
  case (VNumber m e)
  obtain c t where ct: "number_to_string m e = c # t"
    using number_to_string_nonempty [of m e] by (cases "number_to_string m e") auto
  have "parse_value (number_to_string m e @ r) = parse_number (number_to_string m e @ r)"
    using parse_value_number [OF number_to_string_head [OF ct], of "t @ r"] by (simp add: ct)
  then show ?case
    using VNumber by (simp add: element_text_def parse_number_to_string delimited_number_end)
next
  case (VString s)
  show ?case
    by (simp add: element_text_def QuoteJSONString_def parse_value_string parse_chars_quoted)
next
  case (VArray xs)
  have el: "(\<lambda>x. case JSON_stringify x of None \<Rightarrow> ''null'' | Some t \<Rightarrow> t) = element_text"
    by (auto simp: element_text_def)
  have tx: "element_text (VArray xs) @ r
      = CHR ''['' # (join '','' (map element_text xs) @ CHR '']'' # r)"
    by (simp add: element_text_def [of "VArray xs"] el)
  show ?case
  proof (cases xs)
    case Nil
    then show ?thesis
      unfolding tx by (simp add: parse_value_empty)
  next
    case (Cons x xs')
    obtain c t where ct: "element_text x = c # t" "value_head c"
      using element_text_head [of x] VArray.prems(1) by (auto simp: Cons)
    obtain u where u: "join '','' (map element_text xs) @ CHR '']'' # r = c # u"
      by (cases xs') (simp_all add: Cons ct)
    have "parse_elements [] (join '','' (map element_text xs) @ CHR '']'' # r)
        = Some (VArray ([] @ xs), r)"
      using Cons VArray by (intro parse_elements_texts) (auto simp: list_all_iff)
    then show ?thesis
      unfolding tx u by (simp add: parse_value_array [OF ct(2)])
  qed
next
  case (VObject kvs)
  have ser: "\<And>kv. kv \<in> set kvs \<Longrightarrow> serializable (snd kv)"
    using VObject.prems(1) by (auto simp: list_all_iff)
  have "concat (map (\<lambda>kv. case JSON_stringify (snd kv) of None \<Rightarrow> []
        | Some t \<Rightarrow> [QuoteJSONString (fst kv) @ '':'' @ t]) kvs) = map member_text kvs"
    using ser
    by (induction kvs) (auto simp: member_text_def serializable_text)
  then have tx: "element_text (VObject kvs) @ r
      = CHR ''{'' # (join '','' (map member_text kvs) @ CHR ''}'' # r)"
    by (simp add: element_text_def [of "VObject kvs"])
  show ?case
  proof (cases kvs)
    case Nil
    then show ?thesis
      unfolding tx by (simp add: parse_value_empty)
  next
    case (Cons kv kvs')
    obtain u where u: "join '','' (map member_text kvs) @ CHR ''}'' # r = CHR 0x22 # u"
      by (cases kvs') (simp_all add: Cons member_text_def QuoteJSONString_def)
    have IHv: "\<And>kv r. kv \<in> set kvs \<Longrightarrow> delimited r
          \<Longrightarrow> parse_value (element_text (snd kv) @ r) = Some (snd kv, r)"
      using VObject.IH ser by (metis snds.intros)
    have "parse_members [] (join '','' (map member_text kvs) @ CHR ''}'' # r)
        = Some (VObject ([] @ kvs), r)"
      using Cons IHv ser VObject.prems(1) by (intro parse_members_texts) auto
    then show ?thesis
      unfolding tx u by (simp add: parse_value_object)
  qed
qed

section \<open>The reader consumes its text\<close>

lemma dropWhile_length_le: "length (dropWhile P xs) \<le> length xs"
  by (rule length_dropWhile_le)

lemma parse_exponent_length: "parse_exponent s = Some (ex, r) \<Longrightarrow> length r \<le> length s"
proof -
  have "length (dropWhile is_digit (tl (tl s))) \<le> length s"
    "length (dropWhile is_digit (tl s)) \<le> length s"
    using dropWhile_length_le [of is_digit "tl (tl s)"] dropWhile_length_le [of is_digit "tl s"]
    by auto
  then show "parse_exponent s = Some (ex, r) \<Longrightarrow> length r \<le> length s"
    by (cases s) (auto simp: parse_exponent_def Let_def split: if_splits)
qed

lemma parse_number_shorter:
  assumes "parse_number s = Some (v, r)"
  shows "length r < length s"
proof -
  define s1 where "s1 = (if s \<noteq> [] \<and> hd s = CHR ''-'' then tl s else s)"
  define ip where "ip = takeWhile is_digit s1"
  define s2 where "s2 = dropWhile is_digit s1"
  define point where "point = (s2 \<noteq> [] \<and> hd s2 = CHR ''.'')"
  define fp where "fp = (if point then takeWhile is_digit (tl s2) else [])"
  define s3 where "s3 = (if point then dropWhile is_digit (tl s2) else s2)"
  have eq: "parse_number s =
      (if ip = [] \<or> (1 < length ip \<and> hd ip = CHR ''0'') \<or> (point \<and> fp = []) then None
       else case parse_exponent s3 of
              None \<Rightarrow> None
            | Some (ex, s') \<Rightarrow>
                (let M = int (radix_value 10 (ip @ fp));
                     (m, e) = normalize (if s \<noteq> [] \<and> hd s = CHR ''-'' then - M else M)
                                (ex - int (length fp))
                 in Some (VNumber m e, s')))"
    unfolding parse_number_def Let_def
    unfolding s1_def [symmetric]
    unfolding ip_def [symmetric] s2_def [symmetric]
    unfolding point_def [symmetric]
    unfolding fp_def [symmetric] s3_def [symmetric] ..
  from assms obtain ex where ip: "ip \<noteq> []" and pe: "parse_exponent s3 = Some (ex, r)"
    unfolding eq by (auto simp: Let_def split: if_splits option.splits prod.splits)
  have "length s1 = length ip + length s2"
    using takeWhile_dropWhile_id [of is_digit s1, symmetric]
    by (simp only: ip_def s2_def length_append [symmetric])
  then have "length s2 < length s1"
    using ip by simp
  moreover have "length s3 \<le> length s2"
    using dropWhile_length_le [of is_digit "tl s2"] by (auto simp: s3_def)
  moreover have "length s1 \<le> length s"
    by (auto simp: s1_def)
  ultimately show ?thesis
    using parse_exponent_length [OF pe] by simp
qed

lemma skip_ws_length: "length (skip_ws s) \<le> length s"
  unfolding skip_ws_def by (rule length_dropWhile_le)

lemma drop_shorter: "xs \<noteq> [] \<Longrightarrow> 0 < n \<Longrightarrow> length (drop n xs) < length xs"
  by (cases xs) auto

lemma parse_consumes_all:
  "(\<forall>v r. parse_value s = Some (v, r) \<longrightarrow> length r < length s)
   \<and> (\<forall>acc v r. parse_elements acc s = Some (v, r) \<longrightarrow> length r < length s)
   \<and> (\<forall>acc v r. parse_members acc s = Some (v, r) \<longrightarrow> length r < length s)"
proof (induction "length s" arbitrary: s rule: less_induct)
  case less
  have IHe: "length r < length s'"
    if "length s' < length s" "parse_elements acc s' = Some (v, r)" for s' acc v r
    using less.hyps [OF that(1)] that(2) by blast
  have IHm: "length r < length s'"
    if "length s' < length s" "parse_members acc s' = Some (v, r)" for s' acc v r
    using less.hyps [OF that(1)] that(2) by blast
  have IHv: "length r < length s'"
    if "length s' < length s" "parse_value s' = Some (v, r)" for s' v r
    using less.hyps [OF that(1)] that(2) by blast
  have V: "length r < length s" if pv: "parse_value s = Some (v, r)" for v r
  proof -
    from pv obtain c t where s: "skip_ws s = c # t"
      by (subst (asm) parse_value.simps) (auto split: list.splits)
    then have len: "length t < length s"
      by (rule skip_ws_shorter)
    have len': "length (c # t) \<le> length s"
      using skip_ws_length [of s] by (simp add: s)
    have eq: "parse_value s =
       (if c = CHR ''{'' then
          (case skip_ws t of
             [] \<Rightarrow> None
           | c' # r' \<Rightarrow> if c' = CHR ''}'' then Some (VObject [], r') else parse_members [] t)
        else if c = CHR ''['' then
          (case skip_ws t of
             [] \<Rightarrow> None
           | c' # r' \<Rightarrow> if c' = CHR '']'' then Some (VArray [], r') else parse_elements [] t)
        else if c = CHR 0x22 then
          (case parse_chars t of
             None \<Rightarrow> None
           | Some (str, r') \<Rightarrow> Some (VString str, r'))
        else if prefix ''true'' (c # t) then Some (VBool True, drop 4 (c # t))
        else if prefix ''false'' (c # t) then Some (VBool False, drop 5 (c # t))
        else if prefix ''null'' (c # t) then Some (VNull, drop 4 (c # t))
        else parse_number (c # t))"
      by (subst parse_value.simps) (simp add: s)
    have d: "length (drop 4 (c # t)) < length s" "length (drop 5 (c # t)) < length s"
      using drop_shorter [of "c # t" 4] drop_shorter [of "c # t" 5] len' by simp_all
    have ws: "length r' < length s" if "skip_ws t = c' # r'" for c' r'
      using skip_ws_shorter [OF that] len by simp
    have ch: "length r' < length s" if "parse_chars t = Some (str, r')" for str r'
      using parse_chars_shorter [OF that] len by simp
    have nu: "length r' < length s" if "parse_number (c # t) = Some (v', r')" for v' r'
      using parse_number_shorter [OF that] len' by simp
    have me: "length r' < length s" if "parse_members [] t = Some (v', r')" for v' r'
      using IHm [OF len that] len by simp
    have el: "length r' < length s" if "parse_elements [] t = Some (v', r')" for v' r'
      using IHe [OF len that] len by simp
    consider (obj) "c = CHR ''{''" | (arr) "c = CHR ''[''" | (str) "c = CHR 0x22"
      | (other) "c \<noteq> CHR ''{''" "c \<noteq> CHR ''[''" "c \<noteq> CHR 0x22"
      by blast
    then show ?thesis
    proof cases
      case obj
      with pv show ?thesis
        unfolding eq by (auto split: list.splits if_splits dest: ws me)
    next
      case arr
      with pv show ?thesis
        unfolding eq by (auto split: list.splits if_splits dest: ws el)
    next
      case str
      with pv show ?thesis
        unfolding eq by (auto split: option.splits dest: ch)
    next
      case other
      with pv have "(r = drop 4 (c # t) \<or> r = drop 5 (c # t))
          \<or> parse_number (c # t) = Some (v, r)"
        unfolding eq by (simp split: if_splits)
      then show ?thesis
        using d nu by blast
    qed
  qed
  have E: "length r < length s" if pe: "parse_elements acc s = Some (v, r)" for acc v r
  proof -
    from pe obtain v0 r0 c r' where v0: "parse_value s = Some (v0, r0)"
      and r0: "skip_ws r0 = c # r'"
      and cases: "c = CHR '','' \<and> length r' < length s \<and> parse_elements (acc @ [v0]) r' = Some (v, r)
                  \<or> c = CHR '']'' \<and> r = r'"
      by (subst (asm) parse_elements.simps)
         (auto split: option.splits list.splits if_splits)
    from cases show ?thesis
      using V [OF v0] skip_ws_shorter [OF r0] IHe [of r' "acc @ [v0]" v r] by auto
  qed
  have M: "length r < length s" if pm: "parse_members acc s = Some (v, r)" for acc v r
  proof -
    have eq: "parse_members acc s =
       (case skip_ws s of
          [] \<Rightarrow> None
        | q # r \<Rightarrow>
            if q \<noteq> CHR 0x22 then None
            else
              (case parse_chars r of
                 None \<Rightarrow> None
               | Some (k, r1) \<Rightarrow>
                   (case skip_ws r1 of
                      [] \<Rightarrow> None
                    | c # r2 \<Rightarrow>
                        if c \<noteq> CHR '':'' then None
                        else
                          (case parse_value r2 of
                             None \<Rightarrow> None
                           | Some (v, r3) \<Rightarrow>
                               (case skip_ws r3 of
                                  [] \<Rightarrow> None
                                | c' # r4 \<Rightarrow>
                                    if c' = CHR '','' then
                                      (if length r4 < length s
                                       then parse_members (obj_set acc k v) r4 else None)
                                    else if c' = CHR ''}'' then Some (VObject (obj_set acc k v), r4)
                                    else None)))))"
      by (rule parse_members.simps)
    from pm obtain q t where s0: "skip_ws s = q # t"
      by (cases "skip_ws s") (auto simp: eq)
    with pm have q: "q = CHR 0x22"
      by (auto simp: eq split: if_splits)
    note s = s0 [unfolded q]
    from pm obtain k r1 where k: "parse_chars t = Some (k, r1)"
      by (cases "parse_chars t") (auto simp: eq s)
    from pm obtain c0 r2 where r10: "skip_ws r1 = c0 # r2"
      by (cases "skip_ws r1") (auto simp: eq s k)
    with pm have c0: "c0 = CHR '':''"
      by (auto simp: eq s k split: if_splits)
    note r1 = r10 [unfolded c0]
    from pm obtain v0 r3 where v0: "parse_value r2 = Some (v0, r3)"
      by (cases "parse_value r2") (auto simp: eq s k r1)
    from pm obtain c r4 where r3: "skip_ws r3 = c # r4"
      by (cases "skip_ws r3") (auto simp: eq s k r1 v0)
    from pm have cases: "c = CHR '','' \<and> length r4 < length s
                    \<and> parse_members (obj_set acc k v0) r4 = Some (v, r)
                  \<or> c = CHR ''}'' \<and> r = r4"
      by (auto simp: eq s k r1 v0 r3 split: if_splits)
    have l2: "length r2 < length s"
      using skip_ws_shorter [OF s] parse_chars_shorter [OF k] skip_ws_shorter [OF r1] by simp
    from cases show ?thesis
      using IHv [OF l2 v0] l2 skip_ws_shorter [OF r3] IHm [of r4 "obj_set acc k v0" v r] by auto
  qed
  from V E M show ?case
    by blast
qed

lemma parse_value_consumes: "parse_value s = Some (v, r) \<Longrightarrow> length r < length s"
  using parse_consumes_all [of s] by blast

text \<open>
  So the tests on the length in \<open>parse_elements\<close> and \<open>parse_members\<close> never fail: both
  go on after a comma, whatever text is left.
\<close>

lemma parse_elements_unguarded:
  "parse_elements acc s =
     (case parse_value s of
        None \<Rightarrow> None
      | Some (v, r) \<Rightarrow>
          (case skip_ws r of
             [] \<Rightarrow> None
           | c # r' \<Rightarrow>
               if c = CHR '','' then parse_elements (acc @ [v]) r'
               else if c = CHR '']'' then Some (VArray (acc @ [v]), r')
               else None))"
proof -
  have "length r' < length s" if "parse_value s = Some (v, r)" "skip_ws r = c # r'" for v r c r'
    using parse_value_consumes [OF that(1)] skip_ws_shorter [OF that(2)] by simp
  then show ?thesis
    by (subst parse_elements.simps) (auto split: option.splits list.splits)
qed

lemma parse_members_unguarded:
  "parse_members acc s =
     (case skip_ws s of
        [] \<Rightarrow> None
      | q # r \<Rightarrow>
          if q \<noteq> CHR 0x22 then None
          else
            (case parse_chars r of
               None \<Rightarrow> None
             | Some (k, r1) \<Rightarrow>
                 (case skip_ws r1 of
                    [] \<Rightarrow> None
                  | c # r2 \<Rightarrow>
                      if c \<noteq> CHR '':'' then None
                      else
                        (case parse_value r2 of
                           None \<Rightarrow> None
                         | Some (v, r3) \<Rightarrow>
                             (case skip_ws r3 of
                                [] \<Rightarrow> None
                              | c' # r4 \<Rightarrow>
                                  if c' = CHR '','' then parse_members (obj_set acc k v) r4
                                  else if c' = CHR ''}'' then Some (VObject (obj_set acc k v), r4)
                                  else None)))))"
proof -
  have "length r4 < length s"
    if "skip_ws s = q # r" "parse_chars r = Some (k, r1)" "skip_ws r1 = c # r2"
      "parse_value r2 = Some (v, r3)" "skip_ws r3 = c' # r4" for q r k r1 c r2 v r3 c' r4
    using skip_ws_shorter [OF that(1)] parse_chars_shorter [OF that(2)] skip_ws_shorter [OF that(3)]
      parse_value_consumes [OF that(4)] skip_ws_shorter [OF that(5)] by simp
  then show ?thesis
    by (subst parse_members.simps) (auto split: option.splits list.splits)
qed

section \<open>Properties of the storage helpers\<close>

lemma JSON_parse_stringify:
  assumes "serializable v"
  shows "JSON_parse (element_text v) = Some v"
  using parse_value_text [OF assms, of "[]"]
  by (simp add: JSON_parse_def delimited_def skip_ws_delimiter)

lemma parse_number_kind: "parse_number s = Some (v, r) \<Longrightarrow> \<exists>m e. v = VNumber m e"
  unfolding parse_number_def Let_def
  by (auto split: if_splits option.splits prod.splits)

lemma parse_elements_kind: "parse_elements acc s = Some (v, r) \<Longrightarrow> \<exists>xs. v = VArray xs"
proof (induction "length s" arbitrary: acc s rule: less_induct)
  case less
  from less.prems show ?case
    by (subst (asm) parse_elements.simps)
       (auto split: option.splits list.splits if_splits dest: less.hyps)
qed

lemma parse_members_kind: "parse_members acc s = Some (v, r) \<Longrightarrow> \<exists>kvs. v = VObject kvs"
proof (induction "length s" arbitrary: acc s rule: less_induct)
  case less
  have IH: "\<exists>kvs. v = VObject kvs"
    if "length s' < length s" "parse_members acc' s' = Some (v, r)" for acc' s'
    using that by (rule less.hyps)
  from less.prems show ?case
    by (subst (asm) parse_members.simps)
       (auto split: option.splits list.splits if_splits simp: IH)
qed

lemma parse_value_string_shorter:
  assumes "parse_value s = Some (VString t, r)"
  shows "length t < length s"
proof -
  from assms obtain r0 where s: "skip_ws s = CHR 0x22 # r0" and p: "parse_chars r0 = Some (t, r)"
    by (subst (asm) parse_value.simps)
       (auto split: list.splits if_splits option.splits
          dest: parse_number_kind parse_elements_kind parse_members_kind)
  from s have "length r0 < length s"
    by (rule skip_ws_shorter)
  with parse_chars_length [OF p] show ?thesis
    by simp
qed

lemma JSON_parse_not_itself: "JSON_parse s = Some v \<Longrightarrow> v \<noteq> VString s"
proof
  assume "JSON_parse s = Some v" "v = VString s"
  then obtain r where "parse_value s = Some (VString s, r)"
    by (auto simp: JSON_parse_def split: option.splits if_splits)
  then have "length s < length s"
    by (rule parse_value_string_shorter)
  then show False
    by simp
qed

lemma get_after_set_object:
  assumes "serializable v" "typeof v = ''object''"
  shows "getStorageItem key d (setStorageItem key v localStorage) = v"
  using assms
  by (simp add: getStorageItem_def setStorageItem_def serializable_text JSON_parse_stringify)

lemma get_after_set_string:
  "getStorageItem key d (setStorageItem key (VString s) localStorage)
     = (case JSON_parse s of Some v \<Rightarrow> v | None \<Rightarrow> VString s)"
  by (simp add: getStorageItem_def setStorageItem_def typeof_def)

text \<open>
  C8. For every key and every JSON-serializable value that is an object (a plain object,
  an array or \<open>null\<close>), \<open>getStorageItem\<close> after \<open>setStorageItem\<close> on the same key
  returns a value equal to the one stored, in every part and in the order of its
  properties. For an absent key \<open>getStorageItem\<close> returns the default that it was
  given, which is \<open>null\<close> when the argument is \<open>undefined\<close>.
\<close>

theorem storage_round_trip:
  "(serializable v \<and> typeof v = ''object''
      \<longrightarrow> getStorageItem key d (setStorageItem key v localStorage) = v)
   \<and> (localStorage key = None
      \<longrightarrow> getStorageItem key d localStorage = (if d = VUndefined then VNull else d))"
  using get_after_set_object [of v key d localStorage]
  by (simp add: getStorageItem_def)

theorem storage_round_trip_witness:
  \<open>serializable
     (VObject [(''1'', VNumber 15 (- 1)), (''band'', VString ''2.4 "GHz"''),
               (''channels'', VArray [VNumber 1 0, VNumber 6 0, VNumber (- 11) 3]),
               (''meta'', VObject [(''ok'', VBool True), (''note'', VNull)])])
   \<and> typeof
     (VObject [(''1'', VNumber 15 (- 1)), (''band'', VString ''2.4 "GHz"''),
               (''channels'', VArray [VNumber 1 0, VNumber 6 0, VNumber (- 11) 3]),
               (''meta'', VObject [(''ok'', VBool True), (''note'', VNull)])]) = ''object''
   \<and> getStorageItem ''settings'' VNull
       (setStorageItem ''settings''
          (VObject [(''1'', VNumber 15 (- 1)), (''band'', VString ''2.4 "GHz"''),
               (''channels'', VArray [VNumber 1 0, VNumber 6 0, VNumber (- 11) 3]),
               (''meta'', VObject [(''ok'', VBool True), (''note'', VNull)])])
          Map.empty)
     = VObject [(''1'', VNumber 15 (- 1)), (''band'', VString ''2.4 "GHz"''),
               (''channels'', VArray [VNumber 1 0, VNumber 6 0, VNumber (- 11) 3]),
               (''meta'', VObject [(''ok'', VBool True), (''note'', VNull)])]
   \<and> (Map.empty :: storage) ''settings'' = None
   \<and> getStorageItem ''settings'' (VNumber 5 0) Map.empty = VNumber 5 0\<close>
proof -
  let ?v = \<open>VObject [(''1'', VNumber 15 (- 1)), (''band'', VString ''2.4 "GHz"''),
               (''channels'', VArray [VNumber 1 0, VNumber 6 0, VNumber (- 11) 3]),
               (''meta'', VObject [(''ok'', VBool True), (''note'', VNull)])]\<close>
  have s: "serializable ?v" and t: "typeof ?v = ''object''"
    by code_simp+
  show ?thesis
    using s t storage_round_trip [of ?v "''settings''" VNull Map.empty]
      storage_round_trip [of ?v "''settings''" "VNumber 5 0" Map.empty]
    by simp
qed

text \<open>
  C10. When a string whose text is valid JSON is stored, \<open>getStorageItem\<close> returns the
  value that the text denotes, and this value is never the stored string itself: the
  strings \<open>"123"\<close>, \<open>"true"\<close> and \<open>"[1,2]"\<close> come back as a number, a boolean and an
  array, where \<open>"hello"\<close> comes back as it was stored.
\<close>

theorem stored_json_text_comes_back_decoded:
  \<open>(JSON_parse s = Some v
      \<longrightarrow> getStorageItem key d (setStorageItem key (VString s) localStorage) = v
          \<and> v \<noteq> VString s)
   \<and> getStorageItem key d (setStorageItem key (VString ''123'') localStorage) = VNumber 123 0
   \<and> getStorageItem key d (setStorageItem key (VString ''true'') localStorage) = VBool True
   \<and> getStorageItem key d (setStorageItem key (VString ''[1,2]'') localStorage)
     = VArray [VNumber 1 0, VNumber 2 0]
   \<and> getStorageItem key d (setStorageItem key (VString ''"118.000 MHz"'') localStorage)
     = VString ''118.000 MHz''
   \<and> getStorageItem key d (setStorageItem key (VString ''hello'') localStorage)
     = VString ''hello''\<close>
proof -
  have \<open>JSON_parse ''123'' = Some (VNumber 123 0)\<close> \<open>JSON_parse ''true'' = Some (VBool True)\<close>
    \<open>JSON_parse ''[1,2]'' = Some (VArray [VNumber 1 0, VNumber 2 0])\<close>
    \<open>JSON_parse ''"118.000 MHz"'' = Some (VString ''118.000 MHz'')\<close>
    \<open>JSON_parse ''hello'' = None\<close>
    by code_simp+
  then show ?thesis
    using JSON_parse_not_itself [of s v] by (simp add: get_after_set_string)
qed

theorem stored_json_text_comes_back_decoded_witness:
  \<open>JSON_parse ''{"ch": 6, "on": [true, null]}''
     = Some (VObject [(''ch'', VNumber 6 0), (''on'', VArray [VBool True, VNull])])
   \<and> getStorageItem ''k'' VNull
       (setStorageItem ''k'' (VString ''{"ch": 6, "on": [true, null]}'') Map.empty)
     = VObject [(''ch'', VNumber 6 0), (''on'', VArray [VBool True, VNull])]
   \<and> VObject [(''ch'', VNumber 6 0), (''on'', VArray [VBool True, VNull])]
     \<noteq> VString ''{"ch": 6, "on": [true, null]}''\<close>
proof -
  have p: \<open>JSON_parse ''{"ch": 6, "on": [true, null]}''
     = Some (VObject [(''ch'', VNumber 6 0), (''on'', VArray [VBool True, VNull])])\<close>
    by code_simp
  show ?thesis
    using p stored_json_text_comes_back_decoded
      [of \<open>''{"ch": 6, "on": [true, null]}''\<close>
          \<open>VObject [(''ch'', VNumber 6 0), (''on'', VArray [VBool True, VNull])]\<close>
          "''k''" VNull Map.empty]
    by simp
qed

end
